theory Spec2Isabelle
  imports Main "HOL-Library.AList" "HOL-Library.Char_ord" "HOL-Library.List_Lexorder"
begin

section \<open>Data model of comfy\_execution/graph.py\<close>

text \<open>
  Python dictionaries keep insertion order, and the scheduler's results depend on it
  (the ready list, the first cycle member, the first candidate). Every dictionary is
  therefore an association list: \<open>d[k] = v\<close> is \<open>AList.update k v d\<close> (an existing key
  keeps its place, a new key goes to the end), \<open>del d[k]\<close> is \<open>AList.delete k d\<close>,
  \<open>k in d\<close> is \<open>map_of d k \<noteq> None\<close>, and iterating \<open>d\<close> walks the list.
  Exceptions are values of \<open>error\<close>; a function that can raise returns \<open>error + 'a\<close>.
  Node ids are an arbitrary type \<open>'n\<close>; class-type names are strings, ordered as Python
  orders \<open>str\<close> (lexicographically by character code).
\<close>

datatype error =
  NodeNotFoundError | NodeInputError | KeyError | AssertionError | ValueError | IndexError

text \<open>
  Modelled from the spec: \<open>is_link\<close> (comfy\_execution.graph\_utils) is not part of the
  source file. The spec's data model says an input is either a constant payload, opaque
  to the scheduler, or a link \<open>(producer_node_ref, producer_socket_index)\<close>.
\<close>

datatype 'n input_value = Link 'n nat | Constant

definition is_link :: "'n input_value \<Rightarrow> bool" where
  "is_link v = (case v of Link from_node_id from_socket \<Rightarrow> True | Constant \<Rightarrow> False)"

record 'n node =
  class_type :: string
  inputs :: "(string \<times> 'n input_value) list"

subsection \<open>DynamicPrompt\<close>

record 'n DynamicPrompt =
  original_prompt :: "('n \<times> 'n node) list"
  ephemeral_prompt :: "('n \<times> 'n node) list"
  ephemeral_parents :: "('n \<times> 'n) list"
  ephemeral_display :: "('n \<times> 'n) list"

definition DynamicPrompt_init :: "('n \<times> 'n node) list \<Rightarrow> 'n DynamicPrompt" where
  "DynamicPrompt_init original =
     \<lparr>original_prompt = original, ephemeral_prompt = [], ephemeral_parents = [],
      ephemeral_display = []\<rparr>"

definition get_node :: "'n DynamicPrompt \<Rightarrow> 'n \<Rightarrow> error + 'n node" where
  "get_node dp node_id =
     (case map_of (ephemeral_prompt dp) node_id of
        Some nd \<Rightarrow> Inr nd
      | None \<Rightarrow>
          (case map_of (original_prompt dp) node_id of
             Some nd \<Rightarrow> Inr nd
           | None \<Rightarrow> Inl NodeNotFoundError))"

definition has_node :: "'n DynamicPrompt \<Rightarrow> 'n \<Rightarrow> bool" where
  "has_node dp node_id \<longleftrightarrow>
     map_of (original_prompt dp) node_id \<noteq> None \<or> map_of (ephemeral_prompt dp) node_id \<noteq> None"

definition add_ephemeral_node ::
  "'n DynamicPrompt \<Rightarrow> 'n \<Rightarrow> 'n node \<Rightarrow> 'n \<Rightarrow> 'n \<Rightarrow> 'n DynamicPrompt" where
  "add_ephemeral_node dp node_id node_info parent_id display_id =
     dp\<lparr>ephemeral_prompt := AList.update node_id node_info (ephemeral_prompt dp),
        ephemeral_parents := AList.update node_id parent_id (ephemeral_parents dp),
        ephemeral_display := AList.update node_id display_id (ephemeral_display dp)\<rparr>"

text \<open>
  The two ancestry walks are \<open>while\<close> loops that never raise but need not end (a parent
  chain may loop), so not returning is the value \<open>None\<close>.
\<close>

partial_function (option) get_real_node_id :: "'n DynamicPrompt \<Rightarrow> 'n \<Rightarrow> 'n option" where
  "get_real_node_id dp node_id =
     (case map_of (ephemeral_parents dp) node_id of
        Some parent \<Rightarrow> get_real_node_id dp parent
      | None \<Rightarrow> Some node_id)"

declare get_real_node_id.simps [code]

definition get_parent_node_id :: "'n DynamicPrompt \<Rightarrow> 'n \<Rightarrow> 'n option" where
  "get_parent_node_id dp node_id = map_of (ephemeral_parents dp) node_id"

partial_function (option) get_display_node_id :: "'n DynamicPrompt \<Rightarrow> 'n \<Rightarrow> 'n option" where
  "get_display_node_id dp node_id =
     (case map_of (ephemeral_display dp) node_id of
        Some display \<Rightarrow> get_display_node_id dp display
      | None \<Rightarrow> Some node_id)"

declare get_display_node_id.simps [code]

definition all_node_ids :: "'n DynamicPrompt \<Rightarrow> 'n set" where
  "all_node_ids dp = fst ` set (original_prompt dp) \<union> fst ` set (ephemeral_prompt dp)"

text \<open>
  The relations the two walks follow: \<open>(p, c)\<close> when \<open>c\<close> is mapped to \<open>p\<close>. The spec's
  data model requires both chains to be acyclic; on a finite dictionary that is
  well-foundedness of these relations.
\<close>

definition parent_step :: "'n DynamicPrompt \<Rightarrow> ('n \<times> 'n) set" where
  "parent_step dp = {(p, c). map_of (ephemeral_parents dp) c = Some p}"

definition display_step :: "'n DynamicPrompt \<Rightarrow> ('n \<times> 'n) set" where
  "display_step dp = {(p, c). map_of (ephemeral_display dp) c = Some p}"

subsection \<open>Input metadata\<close>

text \<open>
  The node-type registry \<open>nodes.NODE_CLASS_MAPPINGS\<close> is not part of the source file; it
  is a parameter \<open>ncm\<close> of every function that reads it. A class definition is what the
  scheduler reads of it: the dictionary \<open>INPUT_TYPES()\<close> returns (category, then input
  name, then the tuple \<open>(type, options)\<close> whose second component may be missing) and the
  flag \<open>OUTPUT_NODE\<close>. An option's value is kept as its truth value.
\<close>

type_synonym input_options = "(string \<times> bool) list"
type_synonym input_info = "string \<times> input_options option"
type_synonym input_types = "(string \<times> (string \<times> input_info) list) list"

record class_def =
  INPUT_TYPES :: input_types
  OUTPUT_NODE :: bool

type_synonym node_class_mappings = "(string \<times> class_def) list"

definition lookup_category :: "input_types \<Rightarrow> string \<Rightarrow> string \<Rightarrow> input_info option" where
  "lookup_category valid_inputs category input_name =
     (case map_of valid_inputs category of
        None \<Rightarrow> None
      | Some infos \<Rightarrow> map_of infos input_name)"

definition get_input_info ::
  "class_def \<Rightarrow> string \<Rightarrow> input_types option \<Rightarrow> (string \<times> string \<times> input_options) option" where
  "get_input_info cd input_name valid_inputs_arg =
     (let valid_inputs =
            (case valid_inputs_arg of
               None \<Rightarrow> INPUT_TYPES cd
             | Some v \<Rightarrow> if v = [] then INPUT_TYPES cd else v);
          found =
            (case lookup_category valid_inputs ''required'' input_name of
               Some info \<Rightarrow> Some (''required'', info)
             | None \<Rightarrow>
                 (case lookup_category valid_inputs ''optional'' input_name of
                    Some info \<Rightarrow> Some (''optional'', info)
                  | None \<Rightarrow>
                      (case lookup_category valid_inputs ''hidden'' input_name of
                         Some info \<Rightarrow> Some (''hidden'', info)
                       | None \<Rightarrow> None)))
      in case found of
           None \<Rightarrow> None
         | Some (input_category, (input_type, extra)) \<Rightarrow>
             Some (input_type, input_category, (case extra of Some e \<Rightarrow> e | None \<Rightarrow> [])))"

subsection \<open>TopologicalSort\<close>

record 'n TopologicalSort =
  dynprompt :: "'n DynamicPrompt"
  pendingNodes :: "('n \<times> bool) list"
  blockCount :: "('n \<times> int) list"
  blocking :: "('n \<times> ('n \<times> (nat \<times> bool) list) list) list"

definition TopologicalSort_init :: "'n DynamicPrompt \<Rightarrow> 'n TopologicalSort" where
  "TopologicalSort_init dp =
     \<lparr>dynprompt = dp, pendingNodes = [], blockCount = [], blocking = []\<rparr>"

text \<open>\<open>TopologicalSort.is_cached\<close>; no subclass in the file overrides it.\<close>

definition is_cached :: "('n, 'm) TopologicalSort_scheme \<Rightarrow> 'n \<Rightarrow> bool" where
  "is_cached s node_id = False"

text \<open>The method \<open>TopologicalSort.get_input_info\<close>; only the options are used by callers.\<close>

definition node_input_info ::
  "node_class_mappings \<Rightarrow> ('n, 'm) TopologicalSort_scheme \<Rightarrow> 'n \<Rightarrow> string
     \<Rightarrow> error + (string \<times> string \<times> input_options) option" where
  "node_input_info ncm s unique_id input_name =
     (case get_node (dynprompt s) unique_id of
        Inl e \<Rightarrow> Inl e
      | Inr nd \<Rightarrow>
          (case map_of ncm (class_type nd) of
             None \<Rightarrow> Inl KeyError
           | Some cd \<Rightarrow> Inr (get_input_info cd input_name None)))"

definition is_lazy_info :: "(string \<times> string \<times> input_options) option \<Rightarrow> bool" where
  "is_lazy_info r =
     (case r of
        None \<Rightarrow> False
      | Some (input_type, input_category, input_info) \<Rightarrow>
          (case map_of input_info ''lazy'' of Some b \<Rightarrow> b | None \<Rightarrow> False))"

text \<open>
  Lines 126 to 129 of \<open>add_strong_link\<close>, the part after the producer has been added:
  the first edge for a (producer, consumer) pair creates the socket dictionary and
  increments the consumer's count, every edge sets its socket to \<open>True\<close>.
\<close>

definition record_edge ::
  "('n, 'm) TopologicalSort_scheme \<Rightarrow> 'n \<Rightarrow> nat \<Rightarrow> 'n \<Rightarrow> error + ('n, 'm) TopologicalSort_scheme" where
  "record_edge s from_node_id from_socket to_node_id =
     (case map_of (blocking s) from_node_id of
        None \<Rightarrow> Inl KeyError
      | Some blocked \<Rightarrow>
          (case map_of blocked to_node_id of
             None \<Rightarrow>
               (case map_of (blockCount s) to_node_id of
                  None \<Rightarrow> Inl KeyError
                | Some c \<Rightarrow>
                    Inr (s\<lparr>blockCount := AList.update to_node_id (c + 1) (blockCount s),
                           blocking := AList.update from_node_id
                             (AList.update to_node_id [(from_socket, True)] blocked) (blocking s)\<rparr>))
           | Some sockets \<Rightarrow>
               Inr (s\<lparr>blocking := AList.update from_node_id
                      (AList.update to_node_id (AList.update from_socket True sockets) blocked)
                      (blocking s)\<rparr>)))"

text \<open>
  The \<open>for input_name in inputs\<close> loop of \<open>add_node\<close>. The work list \<open>node_ids\<close> is a
  stack whose top is the end of the Python list; here the top is the head, so
  \<open>node_ids.append(x)\<close> is \<open>x # node_ids\<close> and \<open>node_ids.pop()\<close> takes the head.
\<close>

fun scan_inputs ::
  "node_class_mappings \<Rightarrow> ('n, 'm) TopologicalSort_scheme \<Rightarrow> bool \<Rightarrow> 'n list option \<Rightarrow> 'n
     \<Rightarrow> (string \<times> 'n input_value) list \<Rightarrow> 'n list \<Rightarrow> ('n \<times> nat \<times> 'n) list
     \<Rightarrow> error + ('n list \<times> ('n \<times> nat \<times> 'n) list)" where
  "scan_inputs ncm s include_lazy subgraph_nodes unique_id [] node_ids links = Inr (node_ids, links)"
| "scan_inputs ncm s include_lazy subgraph_nodes unique_id ((input_name, v) # rest) node_ids links =
     (case v of
        Constant \<Rightarrow> scan_inputs ncm s include_lazy subgraph_nodes unique_id rest node_ids links
      | Link from_node_id from_socket \<Rightarrow>
          if (case subgraph_nodes of None \<Rightarrow> False | Some sg \<Rightarrow> from_node_id \<notin> set sg)
          then scan_inputs ncm s include_lazy subgraph_nodes unique_id rest node_ids links
          else
            (case node_input_info ncm s unique_id input_name of
               Inl e \<Rightarrow> Inl e
             | Inr input_info \<Rightarrow>
                 if (include_lazy \<or> \<not> is_lazy_info input_info) \<and> \<not> is_cached s from_node_id
                 then scan_inputs ncm s include_lazy subgraph_nodes unique_id rest
                        (from_node_id # node_ids) (links @ [(from_node_id, from_socket, unique_id)])
                 else scan_inputs ncm s include_lazy subgraph_nodes unique_id rest node_ids links))"

definition visit_new :: "('n, 'm) TopologicalSort_scheme \<Rightarrow> 'n \<Rightarrow> ('n, 'm) TopologicalSort_scheme" where
  "visit_new s unique_id =
     s\<lparr>pendingNodes := AList.update unique_id True (pendingNodes s),
       blockCount := AList.update unique_id 0 (blockCount s),
       blocking := AList.update unique_id [] (blocking s)\<rparr>"

lemma get_node_known: "get_node dp u = Inr nd \<Longrightarrow> u \<in> all_node_ids dp"
  by (auto simp: get_node_def all_node_ids_def split: option.splits dest: map_of_SomeD
      intro: rev_image_eqI)

lemma visit_new_fields [simp]:
  "dynprompt (visit_new s u) = dynprompt s"
  "fst ` set (pendingNodes (visit_new s u)) = insert u (fst ` set (pendingNodes s))"
  by (simp_all add: visit_new_def dom_update)

text \<open>The \<open>while len(node_ids) > 0\<close> loop of \<open>add_node\<close>.\<close>

function add_node_loop ::
  "node_class_mappings \<Rightarrow> bool \<Rightarrow> 'n list option \<Rightarrow> 'n list \<Rightarrow> ('n \<times> nat \<times> 'n) list
     \<Rightarrow> ('n, 'm) TopologicalSort_scheme
     \<Rightarrow> error + (('n, 'm) TopologicalSort_scheme \<times> ('n \<times> nat \<times> 'n) list)" where
  "add_node_loop ncm include_lazy subgraph_nodes [] links s = Inr (s, links)"
| "add_node_loop ncm include_lazy subgraph_nodes (unique_id # node_ids) links s =
     (if unique_id \<in> fst ` set (pendingNodes s)
      then add_node_loop ncm include_lazy subgraph_nodes node_ids links s
      else
        (case get_node (dynprompt (visit_new s unique_id)) unique_id of
           Inl e \<Rightarrow> Inl e
         | Inr nd \<Rightarrow>
             (case scan_inputs ncm (visit_new s unique_id) include_lazy subgraph_nodes unique_id
                     (inputs nd) node_ids links of
                Inl e \<Rightarrow> Inl e
              | Inr (node_ids', links') \<Rightarrow>
                  add_node_loop ncm include_lazy subgraph_nodes node_ids' links'
                    (visit_new s unique_id))))"
  by pat_completeness auto
termination
proof (relation "inv_image (less_than <*lex*> less_than)
    (\<lambda>(ncm, il, sg, node_ids, links, s).
       (card (all_node_ids (dynprompt s) - fst ` set (pendingNodes s)), length node_ids))")
  show "wf (inv_image (less_than <*lex*> less_than)
    (\<lambda>(ncm :: node_class_mappings, il :: bool, sg :: 'n list option, node_ids :: 'n list,
        links :: ('n \<times> nat \<times> 'n) list, s :: ('n, 'm) TopologicalSort_scheme).
       (card (all_node_ids (dynprompt s) - fst ` set (pendingNodes s)), length node_ids)))"
    by (intro wf_inv_image wf_lex_prod wf_less_than)
next
  fix ncm :: node_class_mappings and include_lazy :: bool and subgraph_nodes :: "'n list option"
    and unique_id :: 'n and node_ids :: "'n list" and links :: "('n \<times> nat \<times> 'n) list"
    and s :: "('n, 'm) TopologicalSort_scheme"
  assume "unique_id \<in> fst ` set (pendingNodes s)"
  then show "((ncm, include_lazy, subgraph_nodes, node_ids, links, s),
              (ncm, include_lazy, subgraph_nodes, unique_id # node_ids, links, s))
          \<in> inv_image (less_than <*lex*> less_than)
              (\<lambda>(ncm, il, sg, node_ids, links, s).
                 (card (all_node_ids (dynprompt s) - fst ` set (pendingNodes s)), length node_ids))"
    by simp
next
  fix ncm :: node_class_mappings and include_lazy :: bool and subgraph_nodes :: "'n list option"
    and unique_id :: 'n and node_ids :: "'n list" and links :: "('n \<times> nat \<times> 'n) list"
    and s :: "('n, 'm) TopologicalSort_scheme" and nd :: "'n node"
    and x2 :: "'n list \<times> ('n \<times> nat \<times> 'n) list" and node_ids' :: "'n list"
    and links' :: "('n \<times> nat \<times> 'n) list"
  assume new: "unique_id \<notin> fst ` set (pendingNodes s)"
    and nd: "get_node (dynprompt (visit_new s unique_id)) unique_id = Inr nd"
  have known: "unique_id \<in> all_node_ids (dynprompt s)"
    using get_node_known [OF nd] by simp
  have fin: "finite (all_node_ids (dynprompt s))"
    by (simp add: all_node_ids_def)
  have "all_node_ids (dynprompt s) - insert unique_id (fst ` set (pendingNodes s))
        \<subset> all_node_ids (dynprompt s) - fst ` set (pendingNodes s)"
    using new known by blast
  then have "card (all_node_ids (dynprompt s) - insert unique_id (fst ` set (pendingNodes s)))
        < card (all_node_ids (dynprompt s) - fst ` set (pendingNodes s))"
    using fin by (intro psubset_card_mono) auto
  then show "((ncm, include_lazy, subgraph_nodes, node_ids', links', visit_new s unique_id),
              (ncm, include_lazy, subgraph_nodes, unique_id # node_ids, links, s))
          \<in> inv_image (less_than <*lex*> less_than)
              (\<lambda>(ncm, il, sg, node_ids, links, s).
                 (card (all_node_ids (dynprompt s) - fst ` set (pendingNodes s)), length node_ids))"
    by simp
qed

text \<open>
  \<open>add_node\<close> ends by calling \<open>add_strong_link\<close> on every recorded link, and
  \<open>add_strong_link\<close> begins by calling \<open>add_node\<close> on the producer. The mutual recursion
  is written with a bound \<open>d\<close> on the depth of nested \<open>add_node\<close> calls: \<open>None\<close> means the
  bound was reached. \<open>add_strong_link_with r\<close> is the body of \<open>add_strong_link\<close> with the
  call \<open>self.add_node(from_node_id)\<close> bound to \<open>r\<close>, and \<open>add_links_with r\<close> is the loop
  \<open>for link in links: self.add_strong_link(*link)\<close>. Two levels always suffice (lemmas
  \<open>add_node_fuel\<close> and \<open>add_strong_link_fuel\<close> below), because the producer of a recorded
  link is pending when the loop ends.
\<close>

definition add_strong_link_with ::
  "(('n, 'm) TopologicalSort_scheme \<Rightarrow> 'n \<Rightarrow> (error + ('n, 'm) TopologicalSort_scheme) option)
     \<Rightarrow> ('n, 'm) TopologicalSort_scheme \<Rightarrow> 'n \<Rightarrow> nat \<Rightarrow> 'n
     \<Rightarrow> (error + ('n, 'm) TopologicalSort_scheme) option" where
  "add_strong_link_with add_node_rec s from_node_id from_socket to_node_id =
     (if \<not> is_cached s from_node_id
      then
        (case add_node_rec s from_node_id of
           None \<Rightarrow> None
         | Some (Inl e) \<Rightarrow> Some (Inl e)
         | Some (Inr s') \<Rightarrow> Some (record_edge s' from_node_id from_socket to_node_id))
      else Some (Inr s))"

fun add_links_with ::
  "(('n, 'm) TopologicalSort_scheme \<Rightarrow> 'n \<Rightarrow> (error + ('n, 'm) TopologicalSort_scheme) option)
     \<Rightarrow> ('n, 'm) TopologicalSort_scheme \<Rightarrow> ('n \<times> nat \<times> 'n) list
     \<Rightarrow> (error + ('n, 'm) TopologicalSort_scheme) option" where
  "add_links_with add_node_rec s [] = Some (Inr s)"
| "add_links_with add_node_rec s (link # links) =
     (case add_strong_link_with add_node_rec s (fst link) (fst (snd link)) (snd (snd link)) of
        None \<Rightarrow> None
      | Some (Inl e) \<Rightarrow> Some (Inl e)
      | Some (Inr s') \<Rightarrow> add_links_with add_node_rec s' links)"

primrec add_node_f ::
  "nat \<Rightarrow> node_class_mappings \<Rightarrow> ('n, 'm) TopologicalSort_scheme \<Rightarrow> 'n \<Rightarrow> bool \<Rightarrow> 'n list option
     \<Rightarrow> (error + ('n, 'm) TopologicalSort_scheme) option" where
  "add_node_f 0 ncm s node_unique_id include_lazy subgraph_nodes = None"
| "add_node_f (Suc d) ncm s node_unique_id include_lazy subgraph_nodes =
     (case add_node_loop ncm include_lazy subgraph_nodes [node_unique_id] [] s of
        Inl e \<Rightarrow> Some (Inl e)
      | Inr (s', links) \<Rightarrow>
          add_links_with (\<lambda>s1 from_node_id. add_node_f d ncm s1 from_node_id False None) s' links)"

definition add_strong_link_f ::
  "nat \<Rightarrow> node_class_mappings \<Rightarrow> ('n, 'm) TopologicalSort_scheme \<Rightarrow> 'n \<Rightarrow> nat \<Rightarrow> 'n
     \<Rightarrow> (error + ('n, 'm) TopologicalSort_scheme) option" where
  "add_strong_link_f d ncm s from_node_id from_socket to_node_id =
     add_strong_link_with (\<lambda>s1 from_node_id. add_node_f d ncm s1 from_node_id False None)
       s from_node_id from_socket to_node_id"

definition add_node ::
  "node_class_mappings \<Rightarrow> ('n, 'm) TopologicalSort_scheme \<Rightarrow> 'n \<Rightarrow> bool \<Rightarrow> 'n list option
     \<Rightarrow> error + ('n, 'm) TopologicalSort_scheme" where
  "add_node ncm s node_unique_id include_lazy subgraph_nodes =
     the (add_node_f 2 ncm s node_unique_id include_lazy subgraph_nodes)"

definition add_strong_link ::
  "node_class_mappings \<Rightarrow> ('n, 'm) TopologicalSort_scheme \<Rightarrow> 'n \<Rightarrow> nat \<Rightarrow> 'n
     \<Rightarrow> error + ('n, 'm) TopologicalSort_scheme" where
  "add_strong_link ncm s from_node_id from_socket to_node_id =
     the (add_strong_link_f 2 ncm s from_node_id from_socket to_node_id)"

definition make_input_strong_link ::
  "node_class_mappings \<Rightarrow> ('n, 'm) TopologicalSort_scheme \<Rightarrow> 'n \<Rightarrow> string
     \<Rightarrow> error + ('n, 'm) TopologicalSort_scheme" where
  "make_input_strong_link ncm s to_node_id to_input =
     (case get_node (dynprompt s) to_node_id of
        Inl e \<Rightarrow> Inl e
      | Inr nd \<Rightarrow>
          (case map_of (inputs nd) to_input of
             None \<Rightarrow> Inl NodeInputError
           | Some v \<Rightarrow>
               (case v of
                  Constant \<Rightarrow> Inl NodeInputError
                | Link from_node_id from_socket \<Rightarrow>
                    add_strong_link ncm s from_node_id from_socket to_node_id)))"

text \<open>\<open>[node_id for node_id in self.pendingNodes if self.blockCount[node_id] == 0]\<close>\<close>

fun ready_of :: "('n \<times> int) list \<Rightarrow> 'n list \<Rightarrow> error + 'n list" where
  "ready_of counts [] = Inr []"
| "ready_of counts (node_id # rest) =
     (case map_of counts node_id of
        None \<Rightarrow> Inl KeyError
      | Some c \<Rightarrow>
          (case ready_of counts rest of
             Inl e \<Rightarrow> Inl e
           | Inr r \<Rightarrow> Inr (if c = 0 then node_id # r else r)))"

definition get_ready_nodes :: "('n, 'm) TopologicalSort_scheme \<Rightarrow> error + 'n list" where
  "get_ready_nodes s = ready_of (blockCount s) (map fst (pendingNodes s))"

text \<open>\<open>for blocked_node_id in self.blocking[unique_id]: self.blockCount[blocked_node_id] -= 1\<close>\<close>

fun release :: "'n list \<Rightarrow> ('n \<times> int) list \<Rightarrow> error + ('n \<times> int) list" where
  "release [] counts = Inr counts"
| "release (blocked_node_id # rest) counts =
     (case map_of counts blocked_node_id of
        None \<Rightarrow> Inl KeyError
      | Some c \<Rightarrow> release rest (AList.update blocked_node_id (c - 1) counts))"

definition pop_node ::
  "('n, 'm) TopologicalSort_scheme \<Rightarrow> 'n \<Rightarrow> error + ('n, 'm) TopologicalSort_scheme" where
  "pop_node s unique_id =
     (if map_of (pendingNodes s) unique_id = None then Inl KeyError
      else
        (case map_of (blocking s) unique_id of
           None \<Rightarrow> Inl KeyError
         | Some blocked \<Rightarrow>
             (case release (map fst blocked) (blockCount s) of
                Inl e \<Rightarrow> Inl e
              | Inr counts \<Rightarrow>
                  Inr (s\<lparr>pendingNodes := AList.delete unique_id (pendingNodes s),
                         blockCount := counts,
                         blocking := AList.delete unique_id (blocking s)\<rparr>))))"

definition is_empty :: "('n, 'm) TopologicalSort_scheme \<Rightarrow> bool" where
  "is_empty s \<longleftrightarrow> length (pendingNodes s) = 0"

subsection \<open>ExecutionList\<close>

text \<open>
  The result cache is kept as the set of node ids it holds an output for; the class
  stores it and reads it nowhere. The optional debug print of a batch switch has no
  effect on the state and is left out.
\<close>

record 'n ExecutionList = "'n TopologicalSort" +
  output_cache :: "'n set"
  staged_node_id :: "'n option"
  current_group_class :: "string option"

definition ExecutionList_init :: "'n DynamicPrompt \<Rightarrow> 'n set \<Rightarrow> 'n ExecutionList" where
  "ExecutionList_init dp cache =
     \<lparr>dynprompt = dp, pendingNodes = [], blockCount = [], blocking = [],
      output_cache = cache, staged_node_id = None, current_group_class = None\<rparr>"

fun count_classes ::
  "'n DynamicPrompt \<Rightarrow> 'n list \<Rightarrow> (string \<times> int) list \<Rightarrow> error + (string \<times> int) list" where
  "count_classes dp [] counts = Inr counts"
| "count_classes dp (nid # rest) counts =
     (case get_node dp nid of
        Inl e \<Rightarrow> Inl e
      | Inr nd \<Rightarrow>
          count_classes dp rest
            (AList.update (class_type nd)
               ((case map_of counts (class_type nd) of None \<Rightarrow> 0 | Some c \<Rightarrow> c) + 1) counts))"

text \<open>
  The key \<open>(kv[1], kv[0])\<close> of \<open>max\<close>: Python compares the tuples by count first and by
  class name second. \<open>max\<close> keeps the first item whose key no later item exceeds.
\<close>

definition key_less :: "string \<times> int \<Rightarrow> string \<times> int \<Rightarrow> bool" where
  "key_less a b \<longleftrightarrow> snd a < snd b \<or> (snd a = snd b \<and> fst a < fst b)"

fun max_item :: "string \<times> int \<Rightarrow> (string \<times> int) list \<Rightarrow> string \<times> int" where
  "max_item best [] = best"
| "max_item best (kv # rest) = max_item (if key_less best kv then kv else best) rest"

definition pick_largest_group :: "'n DynamicPrompt \<Rightarrow> 'n list \<Rightarrow> error + string" where
  "pick_largest_group dp node_list =
     (case count_classes dp node_list [] of
        Inl e \<Rightarrow> Inl e
      | Inr counts \<Rightarrow>
          (case counts of
             [] \<Rightarrow> Inl ValueError
           | kv # rest \<Rightarrow> Inr (fst (max_item kv rest))))"

fun filter_by_group :: "'n DynamicPrompt \<Rightarrow> 'n list \<Rightarrow> string \<Rightarrow> error + 'n list" where
  "filter_by_group dp [] group_cls = Inr []"
| "filter_by_group dp (nid # rest) group_cls =
     (case get_node dp nid of
        Inl e \<Rightarrow> Inl e
      | Inr nd \<Rightarrow>
          (case filter_by_group dp rest group_cls of
             Inl e \<Rightarrow> Inl e
           | Inr r \<Rightarrow> Inr (if class_type nd = group_cls then nid # r else r)))"

text \<open>\<open>any(get_node(nid)["class_type"] == group for nid in node_list)\<close>, which stops at
  the first hit.\<close>

fun any_in_group :: "'n DynamicPrompt \<Rightarrow> string \<Rightarrow> 'n list \<Rightarrow> error + bool" where
  "any_in_group dp group_cls [] = Inr False"
| "any_in_group dp group_cls (nid # rest) =
     (case get_node dp nid of
        Inl e \<Rightarrow> Inl e
      | Inr nd \<Rightarrow> if class_type nd = group_cls then Inr True else any_in_group dp group_cls rest)"

definition is_output :: "node_class_mappings \<Rightarrow> 'n DynamicPrompt \<Rightarrow> 'n \<Rightarrow> error + bool" where
  "is_output ncm dp node_id =
     (case get_node dp node_id of
        Inl e \<Rightarrow> Inl e
      | Inr nd \<Rightarrow>
          (case map_of ncm (class_type nd) of
             None \<Rightarrow> Inl KeyError
           | Some cd \<Rightarrow> Inr (OUTPUT_NODE cd)))"

text \<open>The three search loops of \<open>ux_friendly_pick_node\<close>; \<open>Inr None\<close> is a loop that ran
  to its end without returning.\<close>

fun first_output :: "node_class_mappings \<Rightarrow> 'n DynamicPrompt \<Rightarrow> 'n list \<Rightarrow> error + 'n option" where
  "first_output ncm dp [] = Inr None"
| "first_output ncm dp (nid # rest) =
     (case is_output ncm dp nid of
        Inl e \<Rightarrow> Inl e
      | Inr b \<Rightarrow> if b then Inr (Some nid) else first_output ncm dp rest)"

fun any_output :: "node_class_mappings \<Rightarrow> 'n DynamicPrompt \<Rightarrow> 'n list \<Rightarrow> error + bool" where
  "any_output ncm dp [] = Inr False"
| "any_output ncm dp (blocked # rest) =
     (case is_output ncm dp blocked of
        Inl e \<Rightarrow> Inl e
      | Inr b \<Rightarrow> if b then Inr True else any_output ncm dp rest)"

fun first_blocking_output ::
  "node_class_mappings \<Rightarrow> ('n, 'm) TopologicalSort_scheme \<Rightarrow> 'n list \<Rightarrow> error + 'n option" where
  "first_blocking_output ncm s [] = Inr None"
| "first_blocking_output ncm s (nid # rest) =
     (case map_of (blocking s) nid of
        None \<Rightarrow> Inl KeyError
      | Some blocked \<Rightarrow>
          (case any_output ncm (dynprompt s) (map fst blocked) of
             Inl e \<Rightarrow> Inl e
           | Inr b \<Rightarrow> if b then Inr (Some nid) else first_blocking_output ncm s rest))"

fun any_blocking_output ::
  "node_class_mappings \<Rightarrow> ('n, 'm) TopologicalSort_scheme \<Rightarrow> 'n list \<Rightarrow> error + bool" where
  "any_blocking_output ncm s [] = Inr False"
| "any_blocking_output ncm s (blocked # rest) =
     (case map_of (blocking s) blocked of
        None \<Rightarrow> Inl KeyError
      | Some blocked2 \<Rightarrow>
          (case any_output ncm (dynprompt s) (map fst blocked2) of
             Inl e \<Rightarrow> Inl e
           | Inr b \<Rightarrow> if b then Inr True else any_blocking_output ncm s rest))"

fun first_blocking_blocking_output ::
  "node_class_mappings \<Rightarrow> ('n, 'm) TopologicalSort_scheme \<Rightarrow> 'n list \<Rightarrow> error + 'n option" where
  "first_blocking_blocking_output ncm s [] = Inr None"
| "first_blocking_blocking_output ncm s (nid # rest) =
     (case map_of (blocking s) nid of
        None \<Rightarrow> Inl KeyError
      | Some blocked \<Rightarrow>
          (case any_blocking_output ncm s (map fst blocked) of
             Inl e \<Rightarrow> Inl e
           | Inr b \<Rightarrow> if b then Inr (Some nid) else first_blocking_blocking_output ncm s rest))"

text \<open>Step 1 of \<open>ux_friendly_pick_node\<close>: the group the pick is made from.\<close>

definition select_group :: "'n ExecutionList \<Rightarrow> 'n list \<Rightarrow> error + string" where
  "select_group s node_list =
     (case current_group_class s of
        None \<Rightarrow> pick_largest_group (dynprompt s) node_list
      | Some g \<Rightarrow>
          (case any_in_group (dynprompt s) g node_list of
             Inl e \<Rightarrow> Inl e
           | Inr b \<Rightarrow> if \<not> b then pick_largest_group (dynprompt s) node_list else Inr g))"

definition pick_candidate ::
  "node_class_mappings \<Rightarrow> ('n, 'm) TopologicalSort_scheme \<Rightarrow> 'n list \<Rightarrow> error + 'n" where
  "pick_candidate ncm s candidates =
     (case first_output ncm (dynprompt s) candidates of
        Inl e \<Rightarrow> Inl e
      | Inr (Some nid) \<Rightarrow> Inr nid
      | Inr None \<Rightarrow>
          (case first_blocking_output ncm s candidates of
             Inl e \<Rightarrow> Inl e
           | Inr (Some nid) \<Rightarrow> Inr nid
           | Inr None \<Rightarrow>
               (case first_blocking_blocking_output ncm s candidates of
                  Inl e \<Rightarrow> Inl e
                | Inr (Some nid) \<Rightarrow> Inr nid
                | Inr None \<Rightarrow>
                    (case candidates of [] \<Rightarrow> Inl IndexError | nid # rest \<Rightarrow> Inr nid))))"

definition ux_friendly_pick_node ::
  "node_class_mappings \<Rightarrow> 'n ExecutionList \<Rightarrow> 'n list \<Rightarrow> error + ('n \<times> 'n ExecutionList)" where
  "ux_friendly_pick_node ncm s node_list =
     (case select_group s node_list of
        Inl e \<Rightarrow> Inl e
      | Inr g \<Rightarrow>
          (let s1 = s\<lparr>current_group_class := Some g\<rparr> in
           case filter_by_group (dynprompt s1) node_list g of
             Inl e \<Rightarrow> Inl e
           | Inr candidates \<Rightarrow>
               (case pick_candidate ncm s1 candidates of
                  Inl e \<Rightarrow> Inl e
                | Inr nid \<Rightarrow> Inr (nid, s1))))"

subsection \<open>Cycle isolation\<close>

fun blocked_by_row ::
  "'n \<Rightarrow> ('n \<times> (nat \<times> bool) list) list \<Rightarrow> ('n \<times> ('n \<times> bool) list) list
     \<Rightarrow> error + ('n \<times> ('n \<times> bool) list) list" where
  "blocked_by_row from_node_id [] blocked_by = Inr blocked_by"
| "blocked_by_row from_node_id ((to_node_id, sockets) # rest) blocked_by =
     (if True \<in> snd ` set sockets
      then
        (case map_of blocked_by to_node_id of
           None \<Rightarrow> Inl KeyError
         | Some d \<Rightarrow>
             blocked_by_row from_node_id rest
               (AList.update to_node_id (AList.update from_node_id True d) blocked_by))
      else blocked_by_row from_node_id rest blocked_by)"

fun blocked_by_rows ::
  "('n \<times> ('n \<times> (nat \<times> bool) list) list) list \<Rightarrow> ('n \<times> ('n \<times> bool) list) list
     \<Rightarrow> error + ('n \<times> ('n \<times> bool) list) list" where
  "blocked_by_rows [] blocked_by = Inr blocked_by"
| "blocked_by_rows ((from_node_id, blocked) # rest) blocked_by =
     (case blocked_by_row from_node_id blocked blocked_by of
        Inl e \<Rightarrow> Inl e
      | Inr blocked_by' \<Rightarrow> blocked_by_rows rest blocked_by')"

definition to_remove_of :: "('n \<times> ('n \<times> bool) list) list \<Rightarrow> 'n list" where
  "to_remove_of blocked_by = map fst (filter (\<lambda>(node_id, d). length d = 0) blocked_by)"

text \<open>The body of \<open>for node_id in to_remove\<close>: delete the node from every row, then its row.\<close>

definition remove_node ::
  "'n \<Rightarrow> ('n \<times> ('n \<times> bool) list) list \<Rightarrow> ('n \<times> ('n \<times> bool) list) list" where
  "remove_node node_id blocked_by =
     AList.delete node_id (map (\<lambda>(to_node_id, d). (to_node_id, AList.delete node_id d)) blocked_by)"

lemma length_remove_node_le: "length (remove_node n bb) \<le> length bb"
  using length_delete_le [of n "map (\<lambda>(t, d). (t, AList.delete n d)) bb"]
  by (simp add: remove_node_def)

lemma length_fold_remove_node_le: "length (fold remove_node ns bb) \<le> length bb"
  by (induction ns arbitrary: bb) (auto intro: order_trans [OF _ length_remove_node_le])

lemma length_remove_node_less:
  assumes "n \<in> fst ` set bb"
  shows "length (remove_node n bb) < length bb"
proof -
  from assms obtain d where "(n, d) \<in> set bb"
    by auto
  then have mem: "(n, AList.delete n d) \<in> set (map (\<lambda>(t, d). (t, AList.delete n d)) bb)"
    by force
  have "length (filter (\<lambda>(k', v). n \<noteq> k') (map (\<lambda>(t, d). (t, AList.delete n d)) bb))
      < length (map (\<lambda>(t, d). (t, AList.delete n d)) bb)"
    by (rule length_filter_less [OF mem]) simp
  then show ?thesis
    by (simp add: remove_node_def AList.delete_eq)
qed

lemma to_remove_of_keys: "set (to_remove_of bb) \<subseteq> fst ` set bb"
  by (auto simp: to_remove_of_def)

function peel :: "('n \<times> ('n \<times> bool) list) list \<Rightarrow> 'n list" where
  "peel blocked_by =
     (if length (to_remove_of blocked_by) > 0
      then peel (fold remove_node (to_remove_of blocked_by) blocked_by)
      else map fst blocked_by)"
  by pat_completeness auto
termination
proof (relation "measure length")
  show "wf (measure (length :: ('n \<times> ('n \<times> bool) list) list \<Rightarrow> nat))"
    by simp
next
  fix blocked_by :: "('n \<times> ('n \<times> bool) list) list"
  assume "0 < length (to_remove_of blocked_by)"
  then obtain n ns where ns: "to_remove_of blocked_by = n # ns"
    by (cases "to_remove_of blocked_by") auto
  then have "n \<in> fst ` set blocked_by"
    using to_remove_of_keys [of blocked_by] by auto
  then have "length (remove_node n blocked_by) < length blocked_by"
    by (rule length_remove_node_less)
  moreover have "length (fold remove_node ns (remove_node n blocked_by))
      \<le> length (remove_node n blocked_by)"
    by (rule length_fold_remove_node_le)
  ultimately show "(fold remove_node (to_remove_of blocked_by) blocked_by, blocked_by)
      \<in> measure length"
    by (simp add: ns)
qed

declare peel.simps [simp del]

definition get_nodes_in_cycle :: "('n, 'm) TopologicalSort_scheme \<Rightarrow> error + 'n list" where
  "get_nodes_in_cycle s =
     (case blocked_by_rows (blocking s) (map (\<lambda>node_id. (node_id, [])) (map fst (pendingNodes s))) of
        Inl e \<Rightarrow> Inl e
      | Inr blocked_by \<Rightarrow> Inr (peel blocked_by))"

subsection \<open>Staging\<close>

text \<open>
  The three shapes of the tuple \<open>stage_node_execution\<close> returns: \<open>(None, None, None)\<close>,
  \<open>(None, err, ex)\<close> with \<open>err["node_id"]\<close> the blamed node, and \<open>(node_id, None, None)\<close>.
\<close>

datatype 'n stage_result = Finished | DependencyCycleError 'n | Staged 'n

text \<open>The \<open>for nid in cycled_nodes\<close> loop; the display walk may not return.\<close>

fun blame :: "'n DynamicPrompt \<Rightarrow> 'n \<Rightarrow> 'n list \<Rightarrow> 'n option" where
  "blame dp blamed_node [] = Some blamed_node"
| "blame dp blamed_node (nid # rest) =
     (case get_display_node_id dp nid of
        None \<Rightarrow> None
      | Some disp \<Rightarrow> if disp \<noteq> nid then Some disp else blame dp blamed_node rest)"

definition stage_node_execution ::
  "node_class_mappings \<Rightarrow> 'n ExecutionList \<Rightarrow> (error + ('n stage_result \<times> 'n ExecutionList)) option" where
  "stage_node_execution ncm s =
     (if staged_node_id s \<noteq> None then Some (Inl AssertionError)
      else if is_empty s then Some (Inr (Finished, s))
      else
        (case get_ready_nodes s of
           Inl e \<Rightarrow> Some (Inl e)
         | Inr available \<Rightarrow>
             if available = []
             then
               (case get_nodes_in_cycle s of
                  Inl e \<Rightarrow> Some (Inl e)
                | Inr cycled_nodes \<Rightarrow>
                    (case cycled_nodes of
                       [] \<Rightarrow> Some (Inl IndexError)
                     | first # others \<Rightarrow>
                         (case blame (dynprompt s) first cycled_nodes of
                            None \<Rightarrow> None
                          | Some blamed_node \<Rightarrow> Some (Inr (DependencyCycleError blamed_node, s)))))
             else
               (case ux_friendly_pick_node ncm s available of
                  Inl e \<Rightarrow> Some (Inl e)
                | Inr (nid, s1) \<Rightarrow> Some (Inr (Staged nid, s1\<lparr>staged_node_id := Some nid\<rparr>)))))"

definition unstage_node_execution :: "'n ExecutionList \<Rightarrow> 'n ExecutionList" where
  "unstage_node_execution s = s\<lparr>staged_node_id := None\<rparr>"

definition complete_node_execution :: "'n ExecutionList \<Rightarrow> error + 'n ExecutionList" where
  "complete_node_execution s =
     (case staged_node_id s of
        None \<Rightarrow> Inl AssertionError
      | Some nid \<Rightarrow>
          (case pop_node s nid of
             Inl e \<Rightarrow> Inl e
           | Inr s' \<Rightarrow> Inr (s'\<lparr>staged_node_id := None\<rparr>)))"

section \<open>Vocabulary of the properties\<close>

text \<open>The class of a node id, when the prompt knows the node.\<close>

definition class_of :: "'n DynamicPrompt \<Rightarrow> 'n \<Rightarrow> string option" where
  "class_of dp nid = (case get_node dp nid of Inl e \<Rightarrow> None | Inr nd \<Rightarrow> Some (class_type nd))"

text \<open>The number of representatives a class type has in a node list.\<close>

definition representatives :: "'n DynamicPrompt \<Rightarrow> 'n list \<Rightarrow> string \<Rightarrow> nat" where
  "representatives dp node_list c = length (filter (\<lambda>nid. class_of dp nid = Some c) node_list)"

text \<open>\<open>counts.get(ctype, 0)\<close>\<close>

definition count_in :: "(string \<times> int) list \<Rightarrow> string \<Rightarrow> int" where
  "count_in counts c = (case map_of counts c of None \<Rightarrow> 0 | Some k \<Rightarrow> k)"

text \<open>The keys of the pending dictionary.\<close>

definition pending :: "('n, 'm) TopologicalSort_scheme \<Rightarrow> 'n set" where
  "pending s = fst ` set (pendingNodes s)"

text \<open>Lines 126 to 129 of \<open>add_strong_link\<close>, for each link of a list in turn.\<close>

fun record_edges ::
  "('n, 'm) TopologicalSort_scheme \<Rightarrow> ('n \<times> nat \<times> 'n) list \<Rightarrow> error + ('n, 'm) TopologicalSort_scheme" where
  "record_edges s [] = Inr s"
| "record_edges s (link # links) =
     (case record_edge s (fst link) (fst (snd link)) (snd (snd link)) of
        Inl e \<Rightarrow> Inl e
      | Inr s' \<Rightarrow> record_edges s' links)"

text \<open>The keys of \<open>blocking[m]\<close>: the nodes recorded as blocked by \<open>m\<close>.\<close>

definition dependents :: "('n, 'm) TopologicalSort_scheme \<Rightarrow> 'n \<Rightarrow> 'n set" where
  "dependents s m = (case map_of (blocking s) m of None \<Rightarrow> {} | Some row \<Rightarrow> fst ` set row)"

text \<open>\<open>blocking[m][n]\<close> exists and holds a true socket.\<close>

definition blocks :: "('n, 'm) TopologicalSort_scheme \<Rightarrow> 'n \<Rightarrow> 'n \<Rightarrow> bool" where
  "blocks s m n \<longleftrightarrow>
     (case map_of (blocking s) m of
        None \<Rightarrow> False
      | Some row \<Rightarrow>
          (case map_of row n of None \<Rightarrow> False | Some sockets \<Rightarrow> True \<in> snd ` set sockets))"

text \<open>
  The block-graph invariant in full: no key occurs twice in \<open>pendingNodes\<close> or
  \<open>blocking\<close>, the rows of \<open>blocking\<close> are those of the pending nodes, a row names pending nodes only, once each, every recorded pair has a true socket,
  and the count of a pending node is the number of rows that name it.
\<close>

definition block_graph_ok :: "('n, 'm) TopologicalSort_scheme \<Rightarrow> bool" where
  "block_graph_ok s \<longleftrightarrow>
     distinct (map fst (pendingNodes s))
     \<and> distinct (map fst (blocking s))
     \<and> fst ` set (blocking s) = pending s
     \<and> (\<forall>m row. map_of (blocking s) m = Some row \<longrightarrow>
           distinct (map fst row) \<and> fst ` set row \<subseteq> pending s
           \<and> (\<forall>n sockets. map_of row n = Some sockets \<longrightarrow> True \<in> snd ` set sockets))
     \<and> (\<forall>n \<in> pending s. map_of (blockCount s) n = Some (int (card {m. n \<in> dependents s m})))"

text \<open>
  The states a driver reaches from a fresh scheduler by calls that return, with
  \<open>add_strong_link\<close> applied to a pending consumer and \<open>pop_node\<close> to a ready node.
  The last rule lets every other field change (the prompt grows by ephemeral nodes, the
  staged slot and the current group are set and cleared).
\<close>

inductive reachable :: "node_class_mappings \<Rightarrow> ('n, 'm) TopologicalSort_scheme \<Rightarrow> bool"
  for ncm :: node_class_mappings where
  fresh: "pendingNodes s = [] \<Longrightarrow> blockCount s = [] \<Longrightarrow> blocking s = [] \<Longrightarrow> reachable ncm s"
| add_node: "reachable ncm s \<Longrightarrow> add_node ncm s u il sg = Inr s' \<Longrightarrow> reachable ncm s'"
| add_strong_link:
    "reachable ncm s \<Longrightarrow> t \<in> pending s \<Longrightarrow> add_strong_link ncm s f sock t = Inr s' \<Longrightarrow>
       reachable ncm s'"
| pop_node:
    "reachable ncm s \<Longrightarrow> u \<in> pending s \<Longrightarrow> map_of (blockCount s) u = Some 0 \<Longrightarrow>
       pop_node s u = Inr s' \<Longrightarrow> reachable ncm s'"
| other_fields:
    "reachable ncm s \<Longrightarrow> pendingNodes s' = pendingNodes s \<Longrightarrow> blockCount s' = blockCount s \<Longrightarrow>
       blocking s' = blocking s \<Longrightarrow> reachable ncm s'"

text \<open>
  The dependency relation among pending nodes, and the nodes that lie on a cycle of it.
\<close>

definition blocks_step :: "('n, 'm) TopologicalSort_scheme \<Rightarrow> ('n \<times> 'n) set" where
  "blocks_step s = {(m, n). m \<in> pending s \<and> n \<in> pending s \<and> blocks s m n}"

definition on_cycle :: "('n, 'm) TopologicalSort_scheme \<Rightarrow> 'n \<Rightarrow> bool" where
  "on_cycle s n \<longleftrightarrow> (n, n) \<in> (blocks_step s)\<^sup>+"

text \<open>The nodes a row of \<open>blocking\<close> names with a true socket.\<close>

definition marked :: "('n \<times> (nat \<times> bool) list) list \<Rightarrow> 'n set" where
  "marked row = {t. \<exists>sockets. (t, sockets) \<in> set row \<and> True \<in> snd ` set sockets}"

text \<open>
  The declared options of an input mark it lazy: what \<open>add_node\<close> computes as
  \<open>is_lazy\<close> for the input.
\<close>

definition lazy_input ::
  "node_class_mappings \<Rightarrow> ('n, 'm) TopologicalSort_scheme \<Rightarrow> 'n \<Rightarrow> string \<Rightarrow> bool" where
  "lazy_input ncm s unique_id input_name \<longleftrightarrow>
     (\<exists>info. node_input_info ncm s unique_id input_name = Inr info \<and> is_lazy_info info)"

subsection \<open>Example graphs\<close>

definition two_classes :: "string DynamicPrompt" where
  "two_classes = DynamicPrompt_init
     [(''1'', \<lparr>class_type = ''Alpha'', inputs = []\<rparr>),
      (''2'', \<lparr>class_type = ''Beta'', inputs = []\<rparr>)]"

definition plain_classes :: node_class_mappings where
  "plain_classes =
     [(''Alpha'', \<lparr>INPUT_TYPES = [], OUTPUT_NODE = False\<rparr>),
      (''Beta'', \<lparr>INPUT_TYPES = [], OUTPUT_NODE = False\<rparr>)]"

definition one_pending :: "string ExecutionList" where
  "one_pending =
     \<lparr>dynprompt = two_classes, pendingNodes = [(''1'', True)], blockCount = [(''1'', 0)],
      blocking = [(''1'', [])], output_cache = {}, staged_node_id = None,
      current_group_class = None\<rparr>"

definition one_staged :: "string ExecutionList" where
  "one_staged = one_pending\<lparr>staged_node_id := Some ''1'', current_group_class := Some ''Alpha''\<rparr>"

text \<open>An original node \<open>P\<close> expanded into \<open>E1\<close>, itself expanded into \<open>E2\<close>.\<close>

definition expanded_twice :: "string DynamicPrompt" where
  "expanded_twice =
     add_ephemeral_node
       (add_ephemeral_node
          (DynamicPrompt_init [(''P'', \<lparr>class_type = ''Alpha'', inputs = []\<rparr>)])
          ''E1'' \<lparr>class_type = ''Alpha'', inputs = []\<rparr> ''P'' ''P'')
       ''E2'' \<lparr>class_type = ''Beta'', inputs = []\<rparr> ''E1'' ''P''"

text \<open>Both nodes of \<open>two_classes\<close> pending and unlinked, and then with one edge.\<close>

definition two_pending :: "string ExecutionList" where
  "two_pending =
     \<lparr>dynprompt = two_classes, pendingNodes = [(''1'', True), (''2'', True)],
      blockCount = [(''1'', 0), (''2'', 0)], blocking = [(''1'', []), (''2'', [])],
      output_cache = {}, staged_node_id = None, current_group_class = None\<rparr>"

definition two_linked :: "string ExecutionList" where
  "two_linked =
     two_pending\<lparr>blockCount := [(''1'', 0), (''2'', 1)],
                 blocking := [(''1'', [(''2'', [(0, True)])]), (''2'', [])]\<rparr>"

text \<open>A node \<open>B\<close> whose input is a link to \<open>A\<close>.\<close>

definition chain_prompt :: "string DynamicPrompt" where
  "chain_prompt = DynamicPrompt_init
     [(''A'', \<lparr>class_type = ''Alpha'', inputs = []\<rparr>),
      (''B'', \<lparr>class_type = ''Beta'', inputs = [(''x'', Link ''A'' 0)]\<rparr>)]"

text \<open>The states of the scheduler over \<open>chain_prompt\<close>: after \<open>add_node(B)\<close>; then after
  \<open>pop_node(A)\<close>; or after \<open>pop_node(B)\<close> and after \<open>add_node(B)\<close> once more.\<close>

definition chain_added :: "string TopologicalSort" where
  "chain_added =
     \<lparr>dynprompt = chain_prompt, pendingNodes = [(''B'', True), (''A'', True)],
      blockCount = [(''B'', 1), (''A'', 0)],
      blocking = [(''B'', []), (''A'', [(''B'', [(0, True)])])]\<rparr>"

definition chain_released :: "string TopologicalSort" where
  "chain_released =
     \<lparr>dynprompt = chain_prompt, pendingNodes = [(''B'', True)],
      blockCount = [(''B'', 0), (''A'', 0)], blocking = [(''B'', [])]\<rparr>"

definition chain_popped :: "string TopologicalSort" where
  "chain_popped =
     \<lparr>dynprompt = chain_prompt, pendingNodes = [(''A'', True)],
      blockCount = [(''B'', 1), (''A'', 0)], blocking = [(''A'', [(''B'', [(0, True)])])]\<rparr>"

definition chain_readded :: "string TopologicalSort" where
  "chain_readded =
     \<lparr>dynprompt = chain_prompt, pendingNodes = [(''A'', True), (''B'', True)],
      blockCount = [(''B'', 0), (''A'', 0)],
      blocking = [(''A'', [(''B'', [(0, True)])]), (''B'', [])]\<rparr>"

text \<open>
  \<open>A\<close> and \<open>B\<close> link to each other and \<open>C\<close> links to \<open>A\<close>; the scheduler after
  \<open>add_node(C)\<close>.
\<close>

definition cycle_prompt :: "string DynamicPrompt" where
  "cycle_prompt = DynamicPrompt_init
     [(''A'', \<lparr>class_type = ''Alpha'', inputs = [(''x'', Link ''B'' 0)]\<rparr>),
      (''B'', \<lparr>class_type = ''Alpha'', inputs = [(''x'', Link ''A'' 0)]\<rparr>),
      (''C'', \<lparr>class_type = ''Alpha'', inputs = [(''x'', Link ''A'' 0)]\<rparr>)]"

definition cycle_with_tail :: "string ExecutionList" where
  "cycle_with_tail =
     \<lparr>dynprompt = cycle_prompt,
      pendingNodes = [(''C'', True), (''A'', True), (''B'', True)],
      blockCount = [(''C'', 1), (''A'', 1), (''B'', 1)],
      blocking = [(''C'', []), (''A'', [(''C'', [(0, True)]), (''B'', [(0, True)])]),
                  (''B'', [(''A'', [(0, True)])])],
      output_cache = {}, staged_node_id = None, current_group_class = None\<rparr>"

text \<open>
  Two ephemeral nodes that link to each other, both displayed as the original node
  \<open>U\<close>; the scheduler after \<open>add_node(E1)\<close>.
\<close>

definition ephemeral_cycle_prompt :: "string DynamicPrompt" where
  "ephemeral_cycle_prompt =
     add_ephemeral_node
       (add_ephemeral_node
          (DynamicPrompt_init [(''U'', \<lparr>class_type = ''Alpha'', inputs = []\<rparr>)])
          ''E1'' \<lparr>class_type = ''Alpha'', inputs = [(''x'', Link ''E2'' 0)]\<rparr> ''U'' ''U'')
       ''E2'' \<lparr>class_type = ''Alpha'', inputs = [(''x'', Link ''E1'' 0)]\<rparr> ''U'' ''U''"

definition ephemeral_cycle :: "string ExecutionList" where
  "ephemeral_cycle =
     \<lparr>dynprompt = ephemeral_cycle_prompt,
      pendingNodes = [(''E1'', True), (''E2'', True)],
      blockCount = [(''E1'', 1), (''E2'', 1)],
      blocking = [(''E1'', [(''E2'', [(0, True)])]), (''E2'', [(''E1'', [(0, True)])])],
      output_cache = {}, staged_node_id = None, current_group_class = None\<rparr>"

text \<open>
  A node \<open>S\<close> whose only input \<open>x\<close> is declared lazy and links to \<open>P\<close>: the fresh
  scheduler, the scheduler after \<open>add_node(S)\<close>, and after
  \<open>make_input_strong_link(S, x)\<close>.
\<close>

definition lazy_classes :: node_class_mappings where
  "lazy_classes =
     [(''Alpha'', \<lparr>INPUT_TYPES = [], OUTPUT_NODE = False\<rparr>),
      (''Switch'',
       \<lparr>INPUT_TYPES = [(''required'', [(''x'', (''IMAGE'', Some [(''lazy'', True)]))])],
        OUTPUT_NODE = False\<rparr>)]"

definition lazy_prompt :: "string DynamicPrompt" where
  "lazy_prompt = DynamicPrompt_init
     [(''P'', \<lparr>class_type = ''Alpha'', inputs = []\<rparr>),
      (''S'', \<lparr>class_type = ''Switch'', inputs = [(''x'', Link ''P'' 0)]\<rparr>)]"

definition lazy_fresh :: "string TopologicalSort" where
  "lazy_fresh = TopologicalSort_init lazy_prompt"

definition lazy_pending :: "string TopologicalSort" where
  "lazy_pending =
     \<lparr>dynprompt = lazy_prompt, pendingNodes = [(''S'', True)], blockCount = [(''S'', 0)],
      blocking = [(''S'', [])]\<rparr>"

definition lazy_forced :: "string TopologicalSort" where
  "lazy_forced =
     \<lparr>dynprompt = lazy_prompt, pendingNodes = [(''S'', True), (''P'', True)],
      blockCount = [(''S'', 1), (''P'', 0)],
      blocking = [(''S'', []), (''P'', [(''S'', [(0, True)])])]\<rparr>"

section \<open>Properties\<close>

subsection \<open>Group selection\<close>

lemma count_classes_step:
  assumes "count_classes dp (nid # rest) counts = Inr counts'"
  obtains nd where "get_node dp nid = Inr nd"
    "count_classes dp rest
       (AList.update (class_type nd) (count_in counts (class_type nd) + 1) counts) = Inr counts'"
  using assms by (auto simp: count_in_def split: sum.splits)

lemma count_classes_counts:
  "count_classes dp nl counts = Inr counts' \<Longrightarrow>
     count_in counts' c = count_in counts c + int (representatives dp nl c)"
proof (induction nl arbitrary: counts)
  case Nil
  then show ?case by (simp add: representatives_def)
next
  case (Cons nid rest)
  from Cons.prems obtain nd where nd: "get_node dp nid = Inr nd"
    and rec: "count_classes dp rest
       (AList.update (class_type nd) (count_in counts (class_type nd) + 1) counts) = Inr counts'"
    by (rule count_classes_step)
  show ?case
    using Cons.IH [OF rec] nd
    by (auto simp: representatives_def class_of_def count_in_def update_conv')
qed

lemma count_classes_keys:
  "count_classes dp nl counts = Inr counts' \<Longrightarrow>
     fst ` set counts' = fst ` set counts \<union> {c. 0 < representatives dp nl c}"
proof (induction nl arbitrary: counts)
  case Nil
  then show ?case by (simp add: representatives_def)
next
  case (Cons nid rest)
  from Cons.prems obtain nd where nd: "get_node dp nid = Inr nd"
    and rec: "count_classes dp rest
       (AList.update (class_type nd) (count_in counts (class_type nd) + 1) counts) = Inr counts'"
    by (rule count_classes_step)
  show ?case
    using Cons.IH [OF rec] nd
    by (auto simp: representatives_def class_of_def dom_update)
qed

lemma count_classes_distinct:
  "count_classes dp nl counts = Inr counts' \<Longrightarrow> distinct (map fst counts) \<Longrightarrow>
     distinct (map fst counts')"
proof (induction nl arbitrary: counts)
  case Nil
  then show ?case by simp
next
  case (Cons nid rest)
  from Cons.prems(1) obtain nd where nd: "get_node dp nid = Inr nd"
    and rec: "count_classes dp rest
       (AList.update (class_type nd) (count_in counts (class_type nd) + 1) counts) = Inr counts'"
    by (rule count_classes_step)
  show ?case
    using Cons.IH [OF rec] Cons.prems(2) by (simp add: distinct_update)
qed

lemma count_classes_returns:
  "\<forall>nid \<in> set nl. class_of dp nid \<noteq> None \<Longrightarrow> \<exists>counts'. count_classes dp nl counts = Inr counts'"
  by (induction nl arbitrary: counts) (auto simp: class_of_def split: sum.splits)

lemma max_item_mem: "max_item best rest \<in> set (best # rest)"
  by (induction rest arbitrary: best) auto

lemma max_item_max: "x \<in> set (best # rest) \<Longrightarrow> \<not> key_less (max_item best rest) x"
proof (induction rest arbitrary: best x)
  case Nil
  then show ?case by (auto simp: key_less_def)
next
  case (Cons kv rest)
  have self: "\<not> key_less (max_item b rest) b" for b
    using Cons.IH [of b b] by simp
  show ?case
  proof (cases "key_less best kv")
    case True
    then show ?thesis
      using Cons.prems Cons.IH [of x kv] self [of kv]
      by (auto simp: key_less_def)
  next
    case False
    then show ?thesis
      using Cons.prems Cons.IH [of x best] self [of best]
      by (auto simp: key_less_def)
  qed
qed

text \<open>
  C1, as amended. On a non-empty list of known nodes \<open>_pick_largest_group\<close> returns a
  class type with the most representatives in the list, and among the class types with
  that many representatives it returns the lexicographically largest name: the key of
  \<open>max\<close> is \<open>(count, name)\<close>, so a tie in the counts is won by the greater name.
\<close>

theorem pick_largest_group_max:
  assumes nonempty: "node_list \<noteq> []"
    and known: "\<forall>nid \<in> set node_list. class_of dp nid \<noteq> None"
  shows "\<exists>g. pick_largest_group dp node_list = Inr g
           \<and> 0 < representatives dp node_list g
           \<and> (\<forall>c. representatives dp node_list c \<le> representatives dp node_list g
                 \<and> (representatives dp node_list c = representatives dp node_list g \<longrightarrow> c \<le> g))"
proof -
  from count_classes_returns [OF known] obtain counts where
    counts: "count_classes dp node_list [] = Inr counts"
    by blast
  have keys: "fst ` set counts = {c. 0 < representatives dp node_list c}"
    using count_classes_keys [OF counts] by simp
  have dist: "distinct (map fst counts)"
    using count_classes_distinct [OF counts] by simp
  have cnt: "count_in counts c = int (representatives dp node_list c)" for c
    using count_classes_counts [OF counts, of c] by (simp add: count_in_def)
  have val: "k = int (representatives dp node_list c)" if "(c, k) \<in> set counts" for c k
    using that dist cnt [of c] by (simp add: count_in_def)
  obtain n0 rest0 where nl: "node_list = n0 # rest0"
    using nonempty by (cases node_list) auto
  obtain c0 where "class_of dp n0 = Some c0"
    using known nl by auto
  then have "0 < representatives dp node_list c0"
    by (simp add: nl representatives_def)
  then have "counts \<noteq> []"
    using keys by auto
  then obtain kv rest where cs: "counts = kv # rest"
    by (cases counts) auto
  define m where "m = max_item kv rest"
  have pick: "pick_largest_group dp node_list = Inr (fst m)"
    by (simp add: pick_largest_group_def counts cs m_def)
  have mem: "m \<in> set counts"
    unfolding m_def cs by (rule max_item_mem)
  then have m_val: "snd m = int (representatives dp node_list (fst m))"
    using val [of "fst m" "snd m"] by simp
  have m_pos: "0 < representatives dp node_list (fst m)"
    using mem keys by (metis (mono_tags, lifting) image_eqI mem_Collect_eq)
  have best: "representatives dp node_list c \<le> representatives dp node_list (fst m)
      \<and> (representatives dp node_list c = representatives dp node_list (fst m) \<longrightarrow> c \<le> fst m)" for c
  proof (cases "0 < representatives dp node_list c")
    case False
    then show ?thesis using m_pos by simp
  next
    case True
    then have "c \<in> fst ` set counts"
      using keys by simp
    then obtain k where ck: "(c, k) \<in> set counts"
      by auto
    have "\<not> key_less m (c, k)"
      using max_item_max [of "(c, k)" kv rest] ck unfolding m_def cs by simp
    then show ?thesis
      using val [OF ck] m_val by (auto simp: key_less_def)
  qed
  show ?thesis
    using pick m_pos best by blast
qed

theorem pick_largest_group_max_witness:
  "\<exists>g. pick_largest_group two_classes [''1'', ''2''] = Inr g
     \<and> 0 < representatives two_classes [''1'', ''2''] g
     \<and> (\<forall>c. representatives two_classes [''1'', ''2''] c \<le> representatives two_classes [''1'', ''2''] g
          \<and> (representatives two_classes [''1'', ''2''] c = representatives two_classes [''1'', ''2''] g
               \<longrightarrow> c \<le> g))"
proof -
  have "[''1'', ''2''] \<noteq> ([] :: string list)" by simp
  moreover have "\<forall>nid \<in> set [''1'', ''2'']. class_of two_classes nid \<noteq> None"
    by (simp add: class_of_def two_classes_def DynamicPrompt_init_def get_node_def)
  ultimately show ?thesis
    by (rule pick_largest_group_max)
qed

text \<open>
  C1 as stated fails: with one node of class \<open>Alpha\<close> and one of class \<open>Beta\<close> ready, the
  counts tie and the function returns \<open>Beta\<close>, the lexicographically larger name.
\<close>

theorem pick_largest_group_tie_counterexample:
  "representatives two_classes [''1'', ''2''] ''Alpha'' = representatives two_classes [''1'', ''2''] ''Beta''
   \<and> ''Alpha'' < ''Beta''
   \<and> pick_largest_group two_classes [''1'', ''2''] = Inr ''Beta''"
  by code_simp

subsection \<open>The staged slot\<close>

lemma get_node_no_assert: "get_node dp n \<noteq> Inl AssertionError"
  by (simp add: get_node_def split: option.splits)

lemma ready_of_no_assert: "ready_of counts ns \<noteq> Inl AssertionError"
  by (induction ns) (auto split: option.splits sum.splits)

lemma release_no_assert: "release ns counts \<noteq> Inl AssertionError"
  by (induction ns arbitrary: counts) (auto split: option.splits)

lemma pop_node_no_assert: "pop_node s u \<noteq> Inl AssertionError"
  by (auto simp: release_no_assert pop_node_def split: option.splits sum.splits)

lemma blocked_by_row_no_assert: "blocked_by_row f row bb \<noteq> Inl AssertionError"
  by (induction f row bb rule: blocked_by_row.induct) (auto split: option.splits)

lemma blocked_by_rows_no_assert: "blocked_by_rows rows bb \<noteq> Inl AssertionError"
  by (induction rows bb rule: blocked_by_rows.induct) (auto simp: blocked_by_row_no_assert split: sum.splits)

lemma get_nodes_in_cycle_no_assert: "get_nodes_in_cycle s \<noteq> Inl AssertionError"
  by (auto simp: blocked_by_rows_no_assert get_nodes_in_cycle_def split: sum.splits)

lemma count_classes_no_assert: "count_classes dp nl counts \<noteq> Inl AssertionError"
  by (induction nl arbitrary: counts) (auto simp: get_node_no_assert split: sum.splits)

lemma pick_largest_group_no_assert: "pick_largest_group dp nl \<noteq> Inl AssertionError"
  by (auto simp: count_classes_no_assert pick_largest_group_def split: sum.splits list.splits)

lemma any_in_group_no_assert: "any_in_group dp g nl \<noteq> Inl AssertionError"
  by (induction nl) (auto simp: get_node_no_assert split: sum.splits)

lemma select_group_no_assert: "select_group s nl \<noteq> Inl AssertionError"
  by (auto simp: pick_largest_group_no_assert any_in_group_no_assert select_group_def split: option.splits sum.splits)

lemma filter_by_group_no_assert: "filter_by_group dp nl g \<noteq> Inl AssertionError"
  by (induction nl) (auto simp: get_node_no_assert split: sum.splits)

lemma is_output_no_assert: "is_output ncm dp n \<noteq> Inl AssertionError"
  by (auto simp: get_node_no_assert is_output_def split: sum.splits option.splits)

lemma first_output_no_assert: "first_output ncm dp ns \<noteq> Inl AssertionError"
  by (induction ns) (auto simp: is_output_no_assert split: sum.splits)

lemma any_output_no_assert: "any_output ncm dp ns \<noteq> Inl AssertionError"
  by (induction ns) (auto simp: is_output_no_assert split: sum.splits)

lemma first_blocking_output_no_assert: "first_blocking_output ncm s ns \<noteq> Inl AssertionError"
  by (induction ns) (auto simp: any_output_no_assert split: sum.splits option.splits)

lemma any_blocking_output_no_assert: "any_blocking_output ncm s ns \<noteq> Inl AssertionError"
  by (induction ns) (auto simp: any_output_no_assert split: sum.splits option.splits)

lemma first_blocking_blocking_output_no_assert:
  "first_blocking_blocking_output ncm s ns \<noteq> Inl AssertionError"
  by (induction ns) (auto simp: any_blocking_output_no_assert split: sum.splits option.splits)

lemma pick_candidate_no_assert: "pick_candidate ncm s cs \<noteq> Inl AssertionError"
proof -
  have a: "first_output ncm (dynprompt s) cs \<noteq> Inl AssertionError"
    by (rule first_output_no_assert)
  have b: "first_blocking_output ncm s cs \<noteq> Inl AssertionError"
    by (rule first_blocking_output_no_assert)
  have c: "first_blocking_blocking_output ncm s cs \<noteq> Inl AssertionError"
    by (rule first_blocking_blocking_output_no_assert)
  have d: "(case cs of [] \<Rightarrow> Inl IndexError | nid # rest \<Rightarrow> Inr nid) \<noteq> Inl AssertionError"
    by (cases cs) simp_all
  show ?thesis
    unfolding pick_candidate_def using a b c d
    by (auto split: sum.splits option.splits)
qed

lemma ux_friendly_pick_node_no_assert: "ux_friendly_pick_node ncm s nl \<noteq> Inl AssertionError"
  by (auto simp: ux_friendly_pick_node_def Let_def select_group_no_assert
      filter_by_group_no_assert pick_candidate_no_assert split: sum.splits)

lemma stage_assert_iff:
  "stage_node_execution ncm s = Some (Inl AssertionError) \<longleftrightarrow> staged_node_id s \<noteq> None"
  by (auto simp: stage_node_execution_def get_ready_nodes_def ready_of_no_assert
      get_nodes_in_cycle_no_assert ux_friendly_pick_node_no_assert
      split: sum.splits list.splits option.splits)

lemma complete_assert_iff:
  "complete_node_execution s = Inl AssertionError \<longleftrightarrow> staged_node_id s = None"
  by (auto simp: complete_node_execution_def pop_node_no_assert split: option.splits sum.splits)

lemma stage_slot:
  "stage_node_execution ncm s = Some (Inr (r, s1)) \<Longrightarrow>
     staged_node_id s1 = (case r of Staged nid \<Rightarrow> Some nid | _ \<Rightarrow> None)"
  by (auto simp: stage_node_execution_def ux_friendly_pick_node_def Let_def
      split: sum.splits list.splits option.splits if_splits)

lemma complete_slot: "complete_node_execution s = Inr s2 \<Longrightarrow> staged_node_id s2 = None"
  by (auto simp: complete_node_execution_def split: option.splits sum.splits)

text \<open>
  C8. With a node staged, \<open>stage_node_execution\<close> fails its assertion; with no node
  staged, \<open>complete_node_execution\<close> fails its assertion. A stage that returns a node
  leaves that node in the slot, so the completion that follows does not fail the
  assertion; a stage that returns no node, a completion and an unstage leave the slot
  empty, so the stage that follows does not fail the assertion. The slot is a single
  optional node id, so at most one node is staged.
\<close>

theorem staging_exclusive:
  "(staged_node_id s \<noteq> None \<longrightarrow> stage_node_execution ncm s = Some (Inl AssertionError))
   \<and> (staged_node_id s = None \<longrightarrow> complete_node_execution s = Inl AssertionError)
   \<and> (stage_node_execution ncm s = Some (Inr (Staged nid, s1)) \<longrightarrow>
        staged_node_id s1 = Some nid \<and> complete_node_execution s1 \<noteq> Inl AssertionError)
   \<and> (stage_node_execution ncm s = Some (Inr (Finished, s1)) \<or>
      stage_node_execution ncm s = Some (Inr (DependencyCycleError nid, s1)) \<longrightarrow>
        staged_node_id s1 = None)
   \<and> (complete_node_execution s = Inr s2 \<longrightarrow>
        staged_node_id s2 = None \<and> stage_node_execution ncm s2 \<noteq> Some (Inl AssertionError))
   \<and> staged_node_id (unstage_node_execution s) = None
   \<and> stage_node_execution ncm (unstage_node_execution s) \<noteq> Some (Inl AssertionError)"
proof -
  have "staged_node_id s1 = Some nid \<and> complete_node_execution s1 \<noteq> Inl AssertionError"
    if "stage_node_execution ncm s = Some (Inr (Staged nid, s1))"
    using stage_slot [OF that] by (simp add: complete_assert_iff)
  moreover have "staged_node_id s1 = None"
    if "stage_node_execution ncm s = Some (Inr (Finished, s1)) \<or>
      stage_node_execution ncm s = Some (Inr (DependencyCycleError nid, s1))"
    using that stage_slot [of ncm s _ s1] by auto
  moreover have "staged_node_id s2 = None \<and> stage_node_execution ncm s2 \<noteq> Some (Inl AssertionError)"
    if "complete_node_execution s = Inr s2"
    using complete_slot [OF that] by (simp add: stage_assert_iff)
  moreover have "staged_node_id (unstage_node_execution s) = None"
    by (simp add: unstage_node_execution_def)
  ultimately show ?thesis
    using stage_assert_iff [of ncm s] complete_assert_iff [of s]
      stage_assert_iff [of ncm "unstage_node_execution s"]
    by blast
qed

theorem staging_exclusive_witness:
  "stage_node_execution plain_classes one_staged = Some (Inl AssertionError)
   \<and> complete_node_execution one_pending = Inl AssertionError
   \<and> stage_node_execution plain_classes one_pending = Some (Inr (Staged ''1'', one_staged))
   \<and> complete_node_execution one_staged \<noteq> Inl AssertionError
   \<and> stage_node_execution plain_classes (unstage_node_execution one_staged) \<noteq> Some (Inl AssertionError)"
proof -
  have a: "staged_node_id one_staged \<noteq> None"
    by (simp add: one_staged_def)
  have b: "staged_node_id one_pending = None"
    by (simp add: one_pending_def)
  have c: "stage_node_execution plain_classes one_pending = Some (Inr (Staged ''1'', one_staged))"
    by code_simp
  show ?thesis
    using staging_exclusive [of one_staged plain_classes] a
      staging_exclusive [of one_pending plain_classes "''1''" one_staged] b c
    by simp
qed


subsection \<open>Ancestry walks\<close>

lemma get_real_node_id_returns:
  assumes "wf (parent_step dp)"
  shows "\<exists>r. get_real_node_id dp n = Some r \<and> map_of (ephemeral_parents dp) r = None
            \<and> (r, n) \<in> (parent_step dp)\<^sup>*"
  using assms
proof (induction n rule: wf_induct_rule)
  case (less n)
  show ?case
  proof (cases "map_of (ephemeral_parents dp) n")
    case None
    then show ?thesis
      by (subst get_real_node_id.simps) simp
  next
    case (Some p)
    then have step: "(p, n) \<in> parent_step dp"
      by (simp add: parent_step_def)
    from less.IH [OF step] obtain r where r: "get_real_node_id dp p = Some r"
      "map_of (ephemeral_parents dp) r = None" "(r, p) \<in> (parent_step dp)\<^sup>*"
      by blast
    have "get_real_node_id dp n = Some r"
      by (subst get_real_node_id.simps) (simp add: Some r(1))
    moreover have "(r, n) \<in> (parent_step dp)\<^sup>*"
      using r(3) step by (rule rtrancl_into_rtrancl)
    ultimately show ?thesis
      using r(2) by blast
  qed
qed

lemma get_display_node_id_returns:
  assumes "wf (display_step dp)"
  shows "\<exists>r. get_display_node_id dp n = Some r \<and> map_of (ephemeral_display dp) r = None
            \<and> (r, n) \<in> (display_step dp)\<^sup>*"
  using assms
proof (induction n rule: wf_induct_rule)
  case (less n)
  show ?case
  proof (cases "map_of (ephemeral_display dp) n")
    case None
    then show ?thesis
      by (subst get_display_node_id.simps) simp
  next
    case (Some p)
    then have step: "(p, n) \<in> display_step dp"
      by (simp add: display_step_def)
    from less.IH [OF step] obtain r where r: "get_display_node_id dp p = Some r"
      "map_of (ephemeral_display dp) r = None" "(r, p) \<in> (display_step dp)\<^sup>*"
      by blast
    have "get_display_node_id dp n = Some r"
      by (subst get_display_node_id.simps) (simp add: Some r(1))
    moreover have "(r, n) \<in> (display_step dp)\<^sup>*"
      using r(3) step by (rule rtrancl_into_rtrancl)
    ultimately show ?thesis
      using r(2) by blast
  qed
qed

lemma unmapped_real: "map_of (ephemeral_parents dp) n = None \<Longrightarrow> get_real_node_id dp n = Some n"
  by (subst get_real_node_id.simps) simp

lemma unmapped_display: "map_of (ephemeral_display dp) n = None \<Longrightarrow> get_display_node_id dp n = Some n"
  by (subst get_display_node_id.simps) simp

text \<open>
  C10. Neither walk has an error result. An id with no parent (display) entry is returned
  unchanged; in particular an id that \<open>get_node\<close> rejects with \<open>NodeNotFoundError\<close> is
  returned unchanged by both walks, the ephemeral dictionaries having the same keys (as
  \<open>add_ephemeral_node\<close>, their only writer, keeps them). Where the chain is acyclic, as
  the data model requires, each walk returns, and its result is the first id on the
  chain from the argument that has no further entry.
\<close>

theorem ancestry_walks_never_raise:
  "(map_of (ephemeral_parents dp) n = None \<longrightarrow> get_real_node_id dp n = Some n)
   \<and> (map_of (ephemeral_display dp) n = None \<longrightarrow> get_display_node_id dp n = Some n)
   \<and> (\<not> has_node dp n \<and> fst ` set (ephemeral_parents dp) \<subseteq> fst ` set (ephemeral_prompt dp)
        \<and> fst ` set (ephemeral_display dp) \<subseteq> fst ` set (ephemeral_prompt dp) \<longrightarrow>
        get_node dp n = Inl NodeNotFoundError
        \<and> get_real_node_id dp n = Some n \<and> get_display_node_id dp n = Some n)
   \<and> (wf (parent_step dp) \<longrightarrow>
        (\<exists>r. get_real_node_id dp n = Some r \<and> map_of (ephemeral_parents dp) r = None
           \<and> (r, n) \<in> (parent_step dp)\<^sup>*))
   \<and> (wf (display_step dp) \<longrightarrow>
        (\<exists>r. get_display_node_id dp n = Some r \<and> map_of (ephemeral_display dp) r = None
           \<and> (r, n) \<in> (display_step dp)\<^sup>*))"
proof -
  have unknown: "get_node dp n = Inl NodeNotFoundError
        \<and> get_real_node_id dp n = Some n \<and> get_display_node_id dp n = Some n"
    if "\<not> has_node dp n" "fst ` set (ephemeral_parents dp) \<subseteq> fst ` set (ephemeral_prompt dp)"
      "fst ` set (ephemeral_display dp) \<subseteq> fst ` set (ephemeral_prompt dp)"
  proof -
    have none: "map_of (ephemeral_prompt dp) n = None" "map_of (original_prompt dp) n = None"
      using that(1) by (simp_all add: has_node_def)
    then have "n \<notin> fst ` set (ephemeral_prompt dp)"
      by (simp add: map_of_eq_None_iff)
    then have "map_of (ephemeral_parents dp) n = None" "map_of (ephemeral_display dp) n = None"
      using that(2,3) by (auto simp: map_of_eq_None_iff)
    then show ?thesis
      using none by (simp add: unmapped_real unmapped_display get_node_def)
  qed
  show ?thesis
    using unknown unmapped_real [of dp n] unmapped_display [of dp n]
      get_real_node_id_returns [of dp n] get_display_node_id_returns [of dp n]
    by blast
qed

lemma expanded_twice_fields:
  "ephemeral_parents expanded_twice = [(''E1'', ''P''), (''E2'', ''E1'')]"
  "ephemeral_display expanded_twice = [(''E1'', ''P''), (''E2'', ''P'')]"
  "map fst (ephemeral_prompt expanded_twice) = [''E1'', ''E2'']"
  "map fst (original_prompt expanded_twice) = [''P'']"
  by (simp_all add: expanded_twice_def add_ephemeral_node_def DynamicPrompt_init_def)

lemma expanded_twice_wf: "wf (parent_step expanded_twice)" "wf (display_step expanded_twice)"
proof -
  have "parent_step expanded_twice
      \<subseteq> measure (\<lambda>x. if x = ''E2'' then 2 else if x = ''E1'' then 1 else 0)"
    by (auto simp: parent_step_def expanded_twice_fields split: if_splits)
  then show "wf (parent_step expanded_twice)"
    by (rule wf_subset [OF wf_measure])
  have "display_step expanded_twice
      \<subseteq> measure (\<lambda>x. if x = ''E2'' then 2 else if x = ''E1'' then 1 else 0)"
    by (auto simp: display_step_def expanded_twice_fields split: if_splits)
  then show "wf (display_step expanded_twice)"
    by (rule wf_subset [OF wf_measure])
qed

theorem ancestry_walks_never_raise_witness:
  "get_node expanded_twice ''Z'' = Inl NodeNotFoundError
   \<and> get_real_node_id expanded_twice ''Z'' = Some ''Z''
   \<and> get_display_node_id expanded_twice ''Z'' = Some ''Z''
   \<and> wf (parent_step expanded_twice) \<and> wf (display_step expanded_twice)
   \<and> (\<exists>r. get_real_node_id expanded_twice ''E2'' = Some r
         \<and> map_of (ephemeral_parents expanded_twice) r = None
         \<and> (r, ''E2'') \<in> (parent_step expanded_twice)\<^sup>*)
   \<and> (\<exists>r. get_display_node_id expanded_twice ''E2'' = Some r
         \<and> map_of (ephemeral_display expanded_twice) r = None
         \<and> (r, ''E2'') \<in> (display_step expanded_twice)\<^sup>*)"
proof -
  have unknown: "\<not> has_node expanded_twice ''Z''"
    by (simp add: has_node_def expanded_twice_def add_ephemeral_node_def DynamicPrompt_init_def)
  have keys: "fst ` set (ephemeral_parents expanded_twice) \<subseteq> fst ` set (ephemeral_prompt expanded_twice)"
    "fst ` set (ephemeral_display expanded_twice) \<subseteq> fst ` set (ephemeral_prompt expanded_twice)"
    using expanded_twice_fields(3) by (simp_all add: expanded_twice_fields flip: set_map)
  show ?thesis
    using ancestry_walks_never_raise [of expanded_twice "''Z''"]
      ancestry_walks_never_raise [of expanded_twice "''E2''"]
      unknown keys expanded_twice_wf
    by blast
qed

subsection \<open>Unstaging\<close>

lemma pick_candidate_Nil: "pick_candidate ncm s [] = Inl IndexError"
  by (simp add: pick_candidate_def)

lemma filter_by_group_any:
  "filter_by_group dp nl g = Inr cs \<Longrightarrow> cs \<noteq> [] \<Longrightarrow> any_in_group dp g nl = Inr True"
  by (induction nl arbitrary: cs) (auto split: sum.splits if_splits)

lemma any_blocking_output_frame:
  "blocking s = blocking s' \<Longrightarrow> dynprompt s = dynprompt s' \<Longrightarrow>
     any_blocking_output ncm s ns = any_blocking_output ncm s' ns"
  by (induction ns) (auto split: option.splits sum.splits)

lemma first_blocking_output_frame:
  "blocking s = blocking s' \<Longrightarrow> dynprompt s = dynprompt s' \<Longrightarrow>
     first_blocking_output ncm s ns = first_blocking_output ncm s' ns"
  by (induction ns) (auto split: option.splits sum.splits)

lemma first_blocking_blocking_output_frame:
  "blocking s = blocking s' \<Longrightarrow> dynprompt s = dynprompt s' \<Longrightarrow>
     first_blocking_blocking_output ncm s ns = first_blocking_blocking_output ncm s' ns"
  by (induction ns)
    (auto simp: any_blocking_output_frame [of s s'] split: option.splits sum.splits)

lemma pick_candidate_frame:
  assumes "blocking s = blocking s'" and "dynprompt s = dynprompt s'"
  shows "pick_candidate ncm s cs = pick_candidate ncm s' cs"
proof -
  have a: "first_blocking_output ncm s cs = first_blocking_output ncm s' cs"
    using assms by (rule first_blocking_output_frame)
  have b: "first_blocking_blocking_output ncm s cs = first_blocking_blocking_output ncm s' cs"
    using assms by (rule first_blocking_blocking_output_frame)
  show ?thesis
    unfolding pick_candidate_def a b assms(2) ..
qed

lemma ux_friendly_pick_node_again:
  assumes "ux_friendly_pick_node ncm s nl = Inr (nid, s1)"
  shows "ux_friendly_pick_node ncm (s1\<lparr>staged_node_id := x\<rparr>) nl = Inr (nid, s1\<lparr>staged_node_id := x\<rparr>)"
proof -
  from assms obtain g cs where g: "select_group s nl = Inr g"
    and s1: "s1 = s\<lparr>current_group_class := Some g\<rparr>"
    and cs: "filter_by_group (dynprompt s) nl g = Inr cs"
    and pick: "pick_candidate ncm (s\<lparr>current_group_class := Some g\<rparr>) cs = Inr nid"
    by (auto simp: ux_friendly_pick_node_def Let_def split: sum.splits)
  define s2 where "s2 = s\<lparr>current_group_class := Some g, staged_node_id := x\<rparr>"
  have s1x: "s1\<lparr>staged_node_id := x\<rparr> = s2"
    by (simp add: s1 s2_def)
  have "cs \<noteq> []"
    using pick by (auto simp: pick_candidate_Nil)
  then have any: "any_in_group (dynprompt s) g nl = Inr True"
    using cs by (rule filter_by_group_any [rotated])
  have sel: "select_group s2 nl = Inr g"
    by (simp add: select_group_def s2_def any)
  have upd: "s2\<lparr>current_group_class := Some g\<rparr> = s2"
    by (simp add: s2_def)
  have dyn: "dynprompt s2 = dynprompt s"
    by (simp add: s2_def)
  have pc: "pick_candidate ncm s2 cs = Inr nid"
    using pick pick_candidate_frame [of s2 "s\<lparr>current_group_class := Some g\<rparr>" ncm cs]
    by (simp add: s2_def)
  show ?thesis
    unfolding s1x by (simp add: ux_friendly_pick_node_def Let_def sel upd dyn cs pc)
qed

text \<open>
  C7. \<open>unstage_node_execution\<close> empties the slot and changes nothing else. After a stage
  that returned (a node, no node, or a cycle error), unstaging and staging again returns
  the same result, the same node id in particular, and ends in the state the first
  stage ended in: the group chosen by the first stage still has a ready node, so it is
  kept, and the candidates and the pick are the same.
\<close>

theorem unstage_preserves:
  "(stage_node_execution ncm s = Some (Inr (r, s1)) \<longrightarrow>
      stage_node_execution ncm (unstage_node_execution s1) = Some (Inr (r, s1)))
   \<and> staged_node_id (unstage_node_execution s) = None
   \<and> pendingNodes (unstage_node_execution s) = pendingNodes s
   \<and> blockCount (unstage_node_execution s) = blockCount s
   \<and> blocking (unstage_node_execution s) = blocking s
   \<and> current_group_class (unstage_node_execution s) = current_group_class s
   \<and> dynprompt (unstage_node_execution s) = dynprompt s
   \<and> output_cache (unstage_node_execution s) = output_cache s"
proof -
  have "stage_node_execution ncm (unstage_node_execution s1) = Some (Inr (r, s1))"
    if st: "stage_node_execution ncm s = Some (Inr (r, s1))"
  proof -
    have empty: "staged_node_id s = None"
      using st by (auto simp: stage_node_execution_def split: if_splits)
    then have same: "s\<lparr>staged_node_id := None\<rparr> = s"
      by (cases s) simp
    show ?thesis
    proof (cases r)
      case (Staged nid)
      from st Staged obtain available s0 where av: "get_ready_nodes s = Inr available"
        "available \<noteq> []" "\<not> is_empty s"
        and pick: "ux_friendly_pick_node ncm s available = Inr (nid, s0)"
        and s1: "s1 = s0\<lparr>staged_node_id := Some nid\<rparr>"
        by (auto simp: stage_node_execution_def split: if_splits sum.splits list.splits option.splits)
      have s0: "s0 = s\<lparr>current_group_class := current_group_class s0\<rparr>"
        using pick by (auto simp: ux_friendly_pick_node_def Let_def split: sum.splits)
      have un: "unstage_node_execution s1 = s0\<lparr>staged_node_id := None\<rparr>"
        by (simp add: unstage_node_execution_def s1)
      have fields: "get_ready_nodes (s0\<lparr>staged_node_id := None\<rparr>) = Inr available"
        "\<not> is_empty (s0\<lparr>staged_node_id := None\<rparr>)"
        using av by (subst s0, simp add: get_ready_nodes_def is_empty_def)+
      show ?thesis
        unfolding un
        using ux_friendly_pick_node_again [OF pick, of None] av(2) fields
        by (simp add: stage_node_execution_def Staged s1)
    next
      case Finished
      then have "s1 = s"
        using st by (auto simp: stage_node_execution_def split: if_splits sum.splits list.splits option.splits)
      then show ?thesis
        using st same by (simp add: unstage_node_execution_def)
    next
      case (DependencyCycleError b)
      then have "s1 = s"
        using st by (auto simp: stage_node_execution_def split: if_splits sum.splits list.splits option.splits)
      then show ?thesis
        using st same by (simp add: unstage_node_execution_def)
    qed
  qed
  then show ?thesis
    by (simp add: unstage_node_execution_def)
qed

theorem unstage_preserves_witness:
  "stage_node_execution plain_classes one_pending = Some (Inr (Staged ''1'', one_staged))
   \<and> stage_node_execution plain_classes (unstage_node_execution one_staged)
       = Some (Inr (Staged ''1'', one_staged))"
proof -
  have "stage_node_execution plain_classes one_pending = Some (Inr (Staged ''1'', one_staged))"
    by code_simp
  then show ?thesis
    using unstage_preserves [of plain_classes one_pending "Staged ''1''" one_staged] by simp
qed

subsection \<open>The worklist loop, and the two operations without the depth bound\<close>

lemma scan_inputs_links:
  "scan_inputs ncm s il sg u ins ids links = Inr (ids', links') \<Longrightarrow>
     \<exists>new. links' = links @ new \<and> set ids' = set ids \<union> fst ` set new
        \<and> (\<forall>l \<in> set new. snd (snd l) = u)"
proof (induction ins arbitrary: ids links)
  case Nil
  then show ?case by simp
next
  case (Cons a ins)
  obtain input_name v where a: "a = (input_name, v)"
    by (cases a)
  show ?case
  proof (cases v)
    case Constant
    then show ?thesis
      using Cons.prems Cons.IH [of ids links] by (simp add: a)
  next
    case (Link f sock)
    consider (skip) "scan_inputs ncm s il sg u ins ids links = Inr (ids', links')"
      | (push) "scan_inputs ncm s il sg u ins (f # ids) (links @ [(f, sock, u)]) = Inr (ids', links')"
      using Cons.prems by (auto simp: a Link split: if_splits sum.splits)
    then show ?thesis
    proof cases
      case skip
      then show ?thesis by (rule Cons.IH)
    next
      case push
      from Cons.IH [OF push] obtain new where new: "links' = (links @ [(f, sock, u)]) @ new"
        "set ids' = set (f # ids) \<union> fst ` set new" "\<forall>l \<in> set new. snd (snd l) = u"
        by blast
      show ?thesis
        by (rule exI [of _ "(f, sock, u) # new"]) (use new in auto)
    qed
  qed
qed

lemma pending_visit_new [simp]: "pending (visit_new s u) = insert u (pending s)"
  by (simp add: pending_def)

lemma add_node_loop_links:
  "add_node_loop ncm il sg ids links s = Inr (s', links') \<Longrightarrow>
     \<exists>new. links' = links @ new \<and> pending s \<subseteq> pending s' \<and> set ids \<subseteq> pending s'
        \<and> fst ` set new \<subseteq> pending s'
        \<and> (\<forall>l \<in> set new. snd (snd l) \<in> pending s' - pending s)
        \<and> dynprompt s' = dynprompt s"
proof (induction ncm il sg ids links s rule: add_node_loop.induct)
  case (1 ncm il sg links s)
  then show ?case by simp
next
  case (2 ncm il sg u ids links s)
  show ?case
  proof (cases "u \<in> fst ` set (pendingNodes s)")
    case True
    then have "add_node_loop ncm il sg ids links s = Inr (s', links')"
      using "2.prems" by simp
    from "2.IH"(1) [OF True this] obtain new where new: "links' = links @ new"
      "pending s \<subseteq> pending s'" "set ids \<subseteq> pending s'" "fst ` set new \<subseteq> pending s'"
      "\<forall>l \<in> set new. snd (snd l) \<in> pending s' - pending s" "dynprompt s' = dynprompt s"
      by blast
    have "u \<in> pending s'"
      using True new(2) by (auto simp: pending_def)
    then show ?thesis
      using new by auto
  next
    case False
    from "2.prems" False obtain nd ids1 links1 where
      nd: "get_node (dynprompt (visit_new s u)) u = Inr nd"
      and scan: "scan_inputs ncm (visit_new s u) il sg u (inputs nd) ids links = Inr (ids1, links1)"
      and rec: "add_node_loop ncm il sg ids1 links1 (visit_new s u) = Inr (s', links')"
      by (auto split: sum.splits)
    from scan_inputs_links [OF scan] obtain new1 where new1: "links1 = links @ new1"
      "set ids1 = set ids \<union> fst ` set new1" "\<forall>l \<in> set new1. snd (snd l) = u"
      by blast
    from "2.IH"(2) [OF False nd scan refl rec] obtain new2 where new2:
      "links' = links1 @ new2" "pending (visit_new s u) \<subseteq> pending s'" "set ids1 \<subseteq> pending s'"
      "fst ` set new2 \<subseteq> pending s'"
      "\<forall>l \<in> set new2. snd (snd l) \<in> pending s' - pending (visit_new s u)"
      "dynprompt s' = dynprompt (visit_new s u)"
      by blast
    have unew: "u \<notin> pending s"
      using False by (simp add: pending_def)
    show ?thesis
      by (rule exI [of _ "new1 @ new2"]) (use new1 new2 unew in auto)
  qed
qed

lemma record_edge_pending: "record_edge s f sock t = Inr s' \<Longrightarrow> pendingNodes s' = pendingNodes s"
  by (auto simp: record_edge_def split: option.splits)

lemma add_node_loop_pending:
  "u \<in> pending s \<Longrightarrow> add_node_loop ncm il sg [u] links s = Inr (s, links)"
  by (simp add: pending_def)

lemma add_node_f_pending:
  "u \<in> pending s \<Longrightarrow> add_node_f (Suc d) ncm s u il sg = Some (Inr s)"
  by (simp add: add_node_loop_pending del: add_node_loop.simps)

lemma add_links_with_pending:
  assumes "\<forall>l \<in> set links. fst l \<in> pending s"
  shows "add_links_with (\<lambda>s1 f. add_node_f (Suc d) ncm s1 f False None) s links
           = Some (record_edges s links)"
  using assms
proof (induction links arbitrary: s)
  case Nil
  then show ?case by simp
next
  case (Cons l links)
  have hd: "add_strong_link_with (\<lambda>s1 f. add_node_f (Suc d) ncm s1 f False None) s
      (fst l) (fst (snd l)) (snd (snd l)) = Some (record_edge s (fst l) (fst (snd l)) (snd (snd l)))"
    using Cons.prems
    by (simp add: add_strong_link_with_def is_cached_def add_node_f_pending del: add_node_f.simps)
  show ?case
  proof (cases "record_edge s (fst l) (fst (snd l)) (snd (snd l))")
    case (Inl e)
    then show ?thesis by (simp add: hd del: add_node_f.simps)
  next
    case (Inr s')
    have "pending s' = pending s"
      using record_edge_pending [OF Inr] by (simp add: pending_def)
    then have "\<forall>l \<in> set links. fst l \<in> pending s'"
      using Cons.prems by simp
    from Cons.IH [OF this] show ?thesis
      by (simp add: hd Inr del: add_node_f.simps)
  qed
qed

text \<open>The two operations without the depth bound.\<close>

lemma add_node_f_enough:
  "add_node_f (Suc (Suc d)) ncm s u il sg =
     Some (case add_node_loop ncm il sg [u] [] s of
             Inl e \<Rightarrow> Inl e
           | Inr (s', links) \<Rightarrow> record_edges s' links)"
proof (cases "add_node_loop ncm il sg [u] [] s")
  case (Inl e)
  then show ?thesis by simp
next
  case (Inr r)
  obtain s' links where r: "r = (s', links)"
    by (cases r)
  from add_node_loop_links [OF Inr [unfolded r]] have "\<forall>l \<in> set links. fst l \<in> pending s'"
    by auto
  from add_links_with_pending [OF this, of d ncm] show ?thesis
    by (subst add_node_f.simps) (simp add: Inr r del: add_node_f.simps add_node_loop.simps)
qed

lemma add_node_fuel:
  "add_node_f (Suc (Suc d)) ncm s u il sg = Some (add_node ncm s u il sg)"
  by (simp only: add_node_def numeral_2_eq_2 add_node_f_enough option.sel)

lemma add_node_eq:
  "add_node ncm s u il sg =
     (case add_node_loop ncm il sg [u] [] s of
        Inl e \<Rightarrow> Inl e
      | Inr (s', links) \<Rightarrow> record_edges s' links)"
  by (simp only: add_node_def numeral_2_eq_2 add_node_f_enough option.sel)

lemma add_strong_link_fuel:
  "add_strong_link_f (Suc (Suc d)) ncm s f sock t = Some (add_strong_link ncm s f sock t)"
  by (simp add: add_strong_link_def add_strong_link_f_def add_strong_link_with_def
      numeral_2_eq_2 add_node_fuel del: add_node_f.simps split: sum.splits)

lemma add_strong_link_eq:
  "add_strong_link ncm s f sock t =
     (case add_node ncm s f False None of
        Inl e \<Rightarrow> Inl e
      | Inr s' \<Rightarrow> record_edge s' f sock t)"
  by (simp add: add_strong_link_def add_strong_link_f_def add_strong_link_with_def
      numeral_2_eq_2 add_node_fuel is_cached_def del: add_node_f.simps split: sum.splits)

subsection \<open>Edge insertion\<close>

lemma record_edge_idem:
  "record_edge s f sock t = Inr s1 \<Longrightarrow> record_edge s1 f sock t = Inr s1"
  by (auto simp: record_edge_def update_conv' split: option.splits)

lemma record_edge_count:
  "record_edge s f sock t = Inr s1 \<Longrightarrow>
     map_of (blockCount s1) t =
       (if t \<in> dependents s f then map_of (blockCount s) t
        else map_option (\<lambda>c. c + 1) (map_of (blockCount s) t))"
  by (auto simp: record_edge_def dependents_def update_conv' map_of_eq_None_iff
      split: option.splits dest: map_of_SomeD intro: rev_image_eqI)

lemma record_edges_pending: "record_edges s links = Inr s' \<Longrightarrow> pendingNodes s' = pendingNodes s"
proof (induction links arbitrary: s)
  case Nil
  then show ?case by simp
next
  case (Cons l links)
  then show ?case
    by (auto split: sum.splits dest: record_edge_pending)
qed

lemma add_node_pending:
  assumes "add_node ncm s u il sg = Inr s'"
  shows "pending s \<subseteq> pending s'" "u \<in> pending s'"
proof -
  from assms obtain s0 links where loop: "add_node_loop ncm il sg [u] [] s = Inr (s0, links)"
    and edges: "record_edges s0 links = Inr s'"
    by (auto simp: add_node_eq split: sum.splits)
  have "pending s' = pending s0"
    using record_edges_pending [OF edges] by (simp add: pending_def)
  then show "pending s \<subseteq> pending s'" "u \<in> pending s'"
    using add_node_loop_links [OF loop] by auto
qed

lemma add_node_again: "u \<in> pending s \<Longrightarrow> add_node ncm s u il sg = Inr s"
  by (simp add: add_node_eq add_node_loop_pending del: add_node_loop.simps)

text \<open>
  C6. A second \<open>add_strong_link\<close> with the same producer, socket and consumer changes
  nothing: it returns the state the first call returned, so the consumer's count is the
  same after two calls as after one. The first call increments the consumer's count
  exactly when the producer's row had no entry for the consumer.
\<close>

theorem add_strong_link_idempotent:
  assumes "add_strong_link ncm s from_node_id from_socket to_node_id = Inr s1"
  shows "add_strong_link ncm s1 from_node_id from_socket to_node_id = Inr s1
    \<and> (\<exists>s0. add_node ncm s from_node_id False None = Inr s0
          \<and> map_of (blockCount s1) to_node_id =
              (if to_node_id \<in> dependents s0 from_node_id then map_of (blockCount s0) to_node_id
               else map_option (\<lambda>c. c + 1) (map_of (blockCount s0) to_node_id)))"
proof -
  from assms obtain s0 where s0: "add_node ncm s from_node_id False None = Inr s0"
    and edge: "record_edge s0 from_node_id from_socket to_node_id = Inr s1"
    by (auto simp: add_strong_link_eq split: sum.splits)
  have "from_node_id \<in> pending s0"
    using s0 by (rule add_node_pending)
  then have "from_node_id \<in> pending s1"
    using record_edge_pending [OF edge] by (simp add: pending_def)
  then have "add_node ncm s1 from_node_id False None = Inr s1"
    by (rule add_node_again)
  then have "add_strong_link ncm s1 from_node_id from_socket to_node_id = Inr s1"
    by (simp add: add_strong_link_eq record_edge_idem [OF edge])
  then show ?thesis
    using s0 record_edge_count [OF edge] by blast
qed

theorem add_strong_link_idempotent_witness:
  "add_strong_link plain_classes two_pending ''1'' 0 ''2'' = Inr two_linked
   \<and> add_strong_link plain_classes two_linked ''1'' 0 ''2'' = Inr two_linked
   \<and> map_of (blockCount two_pending) ''2'' = Some 0
   \<and> map_of (blockCount two_linked) ''2'' = Some 1"
proof -
  have first: "add_strong_link plain_classes two_pending ''1'' 0 ''2'' = Inr two_linked"
    by code_simp
  have "map_of (blockCount two_pending) ''2'' = Some 0" "map_of (blockCount two_linked) ''2'' = Some 1"
    by (simp_all add: two_pending_def two_linked_def)
  then show ?thesis
    using first add_strong_link_idempotent [OF first] by simp
qed

subsection \<open>The result cache\<close>

text \<open>
  C4 does not hold of the code: \<open>ExecutionList\<close> stores the result cache and inherits
  \<open>is_cached\<close>, which answers \<open>False\<close> for every node. With \<open>A\<close> in the cache, adding
  \<open>B\<close>, which links to \<open>A\<close>, makes \<open>A\<close> pending and blocks \<open>B\<close> on it.
\<close>

theorem cached_producer_is_enqueued:
  "''A'' \<in> output_cache (ExecutionList_init chain_prompt {''A''})
   \<and> (case add_node plain_classes (ExecutionList_init chain_prompt {''A''}) ''B'' False None of
        Inl e \<Rightarrow> False
      | Inr s \<Rightarrow> map fst (pendingNodes s) = [''B'', ''A''] \<and> map_of (blockCount s) ''B'' = Some 1
          \<and> output_cache s = {''A''})"
  by code_simp

subsection \<open>The block-graph invariant\<close>

lemma dependents_keys: "n \<in> dependents s m \<Longrightarrow> m \<in> fst ` set (blocking s)"
  by (auto simp: dependents_def split: option.splits dest: map_of_SomeD intro: rev_image_eqI)

lemma finite_blockers: "finite {m. n \<in> dependents s m}"
proof (rule finite_subset)
  show "{m. n \<in> dependents s m} \<subseteq> fst ` set (blocking s)"
    using dependents_keys by fastforce
qed simp

lemma block_graph_ok_row:
  assumes "block_graph_ok s" and "map_of (blocking s) m = Some row"
  shows "distinct (map fst row)" "fst ` set row \<subseteq> pending s"
    "\<And>n sockets. map_of row n = Some sockets \<Longrightarrow> True \<in> snd ` set sockets"
  using assms unfolding block_graph_ok_def by blast+

lemma dependents_pending: "block_graph_ok s \<Longrightarrow> dependents s m \<subseteq> pending s"
  using block_graph_ok_row(2) [of s m]
  by (cases "map_of (blocking s) m") (simp_all add: dependents_def)

lemma visit_new_tables:
  "blocking (visit_new s u) = AList.update u [] (blocking s)"
  "blockCount (visit_new s u) = AList.update u 0 (blockCount s)"
  by (simp_all add: visit_new_def)

lemma block_graph_ok_visit_new:
  assumes ok: "block_graph_ok s" and new: "u \<notin> pending s"
  shows "block_graph_ok (visit_new s u)"
proof -
  have none: "map_of (blocking s) u = None"
    using ok new by (simp add: block_graph_ok_def map_of_eq_None_iff)
  have dep: "dependents (visit_new s u) m = dependents s m" for m
    using none by (simp add: dependents_def visit_new_def update_conv')
  have nodep: "u \<notin> dependents s m" for m
    using dependents_pending [OF ok, of m] new by auto
  have cnt: "map_of (blockCount (visit_new s u)) n =
      (if n = u then Some 0 else map_of (blockCount s) n)" for n
    by (simp add: visit_new_def update_conv')
  have "distinct (map fst (pendingNodes (visit_new s u)))"
    using ok by (simp add: block_graph_ok_def visit_new_def distinct_update)
  moreover have "distinct (map fst (blocking (visit_new s u)))"
    using ok by (simp add: block_graph_ok_def visit_new_def distinct_update)
  moreover have "fst ` set (blocking (visit_new s u)) = pending (visit_new s u)"
    using ok by (simp add: block_graph_ok_def visit_new_tables dom_update)
  moreover have "distinct (map fst row) \<and> fst ` set row \<subseteq> pending (visit_new s u)
      \<and> (\<forall>n sockets. map_of row n = Some sockets \<longrightarrow> True \<in> snd ` set sockets)"
    if "map_of (blocking (visit_new s u)) m = Some row" for m row
  proof (cases "m = u")
    case True
    then show ?thesis
      using that by (simp add: visit_new_tables update_conv')
  next
    case False
    then have "map_of (blocking s) m = Some row"
      using that by (simp add: visit_new_tables update_conv')
    from block_graph_ok_row [OF ok this] show ?thesis
      by auto
  qed
  moreover have "map_of (blockCount (visit_new s u)) n
      = Some (int (card {m. n \<in> dependents (visit_new s u) m}))"
    if "n \<in> pending (visit_new s u)" for n
    using that ok nodep by (auto simp: cnt dep block_graph_ok_def)
  ultimately show ?thesis
    unfolding block_graph_ok_def by blast
qed

lemma record_edge_cases:
  assumes "record_edge s f sock t = Inr s'"
  obtains (first) row c where "map_of (blocking s) f = Some row" "map_of row t = None"
      "map_of (blockCount s) t = Some c"
      "s' = s\<lparr>blockCount := AList.update t (c + 1) (blockCount s),
              blocking := AList.update f (AList.update t [(sock, True)] row) (blocking s)\<rparr>"
    | (again) row sockets where "map_of (blocking s) f = Some row" "map_of row t = Some sockets"
      "s' = s\<lparr>blocking := AList.update f
                (AList.update t (AList.update sock True sockets) row) (blocking s)\<rparr>"
  using assms by (auto simp: record_edge_def split: option.splits)

lemma block_graph_ok_record_edge:
  assumes ok: "block_graph_ok s" and f: "f \<in> pending s" and t: "t \<in> pending s"
    and edge: "record_edge s f sock t = Inr s'"
  shows "block_graph_ok s'"
  using edge
proof (cases rule: record_edge_cases)
  case (first row c)
  have pend: "pending s' = pending s"
    by (simp add: first(4) pending_def)
  have rowok: "distinct (map fst row)" "fst ` set row \<subseteq> pending s"
    "\<And>n sockets. map_of row n = Some sockets \<Longrightarrow> True \<in> snd ` set sockets"
    using ok first(1) by (auto simp: block_graph_ok_def)
  have blk: "map_of (blocking s') m =
      (if m = f then Some (AList.update t [(sock, True)] row) else map_of (blocking s) m)" for m
    by (simp add: first(4) update_conv')
  have dep: "dependents s' m = (if m = f then insert t (dependents s f) else dependents s m)" for m
    by (auto simp: dependents_def blk first(1) dom_update)
  have tnew: "t \<notin> dependents s f"
    using first(1,2) by (simp add: dependents_def map_of_eq_None_iff)
  have cnt: "map_of (blockCount s') n =
      (if n = t then Some (c + 1) else map_of (blockCount s) n)" for n
    by (simp add: first(4) update_conv')
  have old: "map_of (blockCount s) n = Some (int (card {m. n \<in> dependents s m}))"
    if "n \<in> pending s" for n
    using ok that by (simp add: block_graph_ok_def)
  have "distinct (map fst (pendingNodes s'))"
    using ok by (simp add: first(4) block_graph_ok_def)
  moreover have "distinct (map fst (blocking s'))"
    using ok by (simp add: first(4) block_graph_ok_def distinct_update)
  moreover have "fst ` set (blocking s') = pending s'"
    using ok f by (auto simp: first(4) block_graph_ok_def dom_update pending_def)
  moreover have "distinct (map fst row') \<and> fst ` set row' \<subseteq> pending s'
      \<and> (\<forall>n sockets. map_of row' n = Some sockets \<longrightarrow> True \<in> snd ` set sockets)"
    if "map_of (blocking s') m = Some row'" for m row'
  proof (cases "m = f")
    case True
    then have "row' = AList.update t [(sock, True)] row"
      using that by (simp add: blk)
    then show ?thesis
      using rowok t by (auto simp: pend distinct_update dom_update update_conv' split: if_splits)
  next
    case False
    then show ?thesis
      using that ok by (simp add: blk pend block_graph_ok_def)
  qed
  moreover have "map_of (blockCount s') n = Some (int (card {m. n \<in> dependents s' m}))"
    if "n \<in> pending s'" for n
  proof (cases "n = t")
    case True
    have "{m. t \<in> dependents s' m} = insert f {m. t \<in> dependents s m}"
      by (auto simp: dep)
    moreover have "f \<notin> {m. t \<in> dependents s m}"
      using tnew by simp
    ultimately have "card {m. t \<in> dependents s' m} = Suc (card {m. t \<in> dependents s m})"
      using finite_blockers [of t s] by simp
    moreover have "c = int (card {m. t \<in> dependents s m})"
      using old [OF t] first(3) by simp
    ultimately show ?thesis
      by (simp add: True cnt)
  next
    case False
    then have "{m. n \<in> dependents s' m} = {m. n \<in> dependents s m}"
      by (auto simp: dep)
    then show ?thesis
      using False that old [of n] by (simp add: cnt pend)
  qed
  ultimately show ?thesis
    unfolding block_graph_ok_def by blast
next
  case (again row sockets)
  have pend: "pending s' = pending s"
    by (simp add: again(3) pending_def)
  have rowok: "distinct (map fst row)" "fst ` set row \<subseteq> pending s"
    "\<And>n sockets. map_of row n = Some sockets \<Longrightarrow> True \<in> snd ` set sockets"
    using ok again(1) by (auto simp: block_graph_ok_def)
  have blk: "map_of (blocking s') m =
      (if m = f then Some (AList.update t (AList.update sock True sockets) row)
       else map_of (blocking s) m)" for m
    by (simp add: again(3) update_conv')
  have tin: "t \<in> fst ` set row"
    using again(2) by (auto dest: map_of_SomeD intro: rev_image_eqI)
  have dep: "dependents s' m = dependents s m" for m
    using tin by (auto simp: dependents_def blk again(1) dom_update)
  have cnt: "blockCount s' = blockCount s"
    by (simp add: again(3))
  have true: "True \<in> snd ` set (AList.update sock True sockets)"
  proof -
    have "map_of (AList.update sock True sockets) sock = Some True"
      by (simp add: update_conv')
    then have "(sock, True) \<in> set (AList.update sock True sockets)"
      by (rule map_of_SomeD)
    then show ?thesis
      by (rule rev_image_eqI) simp
  qed
  have "distinct (map fst (pendingNodes s'))"
    using ok by (simp add: again(3) block_graph_ok_def)
  moreover have "distinct (map fst (blocking s'))"
    using ok by (simp add: again(3) block_graph_ok_def distinct_update)
  moreover have "fst ` set (blocking s') = pending s'"
    using ok f by (auto simp: again(3) block_graph_ok_def dom_update pending_def)
  moreover have "distinct (map fst row') \<and> fst ` set row' \<subseteq> pending s'
      \<and> (\<forall>n sockets. map_of row' n = Some sockets \<longrightarrow> True \<in> snd ` set sockets)"
    if "map_of (blocking s') m = Some row'" for m row'
  proof (cases "m = f")
    case True
    then have "row' = AList.update t (AList.update sock True sockets) row"
      using that by (simp add: blk)
    then show ?thesis
      using rowok tin true
      by (auto simp: pend distinct_update dom_update update_conv' split: if_splits)
  next
    case False
    then show ?thesis
      using that ok by (simp add: blk pend block_graph_ok_def)
  qed
  moreover have "map_of (blockCount s') n = Some (int (card {m. n \<in> dependents s' m}))"
    if "n \<in> pending s'" for n
    using that ok by (simp add: dep cnt pend block_graph_ok_def)
  ultimately show ?thesis
    unfolding block_graph_ok_def by blast
qed


lemma release_counts:
  "release ns counts = Inr counts' \<Longrightarrow> distinct ns \<Longrightarrow>
     map_of counts' n =
       (if n \<in> set ns then map_option (\<lambda>c. c - 1) (map_of counts n) else map_of counts n)"
proof (induction ns arbitrary: counts)
  case Nil
  then show ?case by simp
next
  case (Cons a ns)
  from Cons.prems(1) obtain c where c: "map_of counts a = Some c"
    and rec: "release ns (AList.update a (c - 1) counts) = Inr counts'"
    by (auto split: option.splits)
  have "distinct ns" "a \<notin> set ns"
    using Cons.prems(2) by simp_all
  with Cons.IH [OF rec] c show ?case
    by (auto simp: update_conv')
qed

lemma pop_node_cases:
  assumes "pop_node s u = Inr s'"
  obtains row counts where "map_of (blocking s) u = Some row"
    "release (map fst row) (blockCount s) = Inr counts"
    "s' = s\<lparr>pendingNodes := AList.delete u (pendingNodes s), blockCount := counts,
            blocking := AList.delete u (blocking s)\<rparr>"
  using assms by (auto simp: pop_node_def split: if_splits option.splits sum.splits)

lemma keys_delete: "fst ` set (AList.delete k al) = fst ` set al - {k}"
  using delete_keys [of k al] by (metis list.set_map set_removeAll)

lemma pop_node_counts:
  assumes ok: "block_graph_ok s" and pop: "pop_node s u = Inr s'"
  shows "map_of (blockCount s') n =
      (if n \<in> dependents s u then map_option (\<lambda>c. c - 1) (map_of (blockCount s) n)
       else map_of (blockCount s) n)"
  using pop
proof (cases rule: pop_node_cases)
  case (1 row counts)
  have "distinct (map fst row)"
    using ok 1(1) by (rule block_graph_ok_row)
  from release_counts [OF 1(2) this, of n] show ?thesis
    by (simp add: 1(1,3) dependents_def)
qed

lemma block_graph_ok_pop_node:
  assumes ok: "block_graph_ok s" and u: "u \<in> pending s"
    and ready: "map_of (blockCount s) u = Some 0"
    and pop: "pop_node s u = Inr s'"
  shows "block_graph_ok s'"
  using pop
proof (cases rule: pop_node_cases)
  case (1 row counts)
  have pend: "pending s' = pending s - {u}"
    by (simp add: 1(3) pending_def keys_delete)
  have blk: "map_of (blocking s') m = (if m = u then None else map_of (blocking s) m)" for m
    by (simp add: 1(3) delete_conv')
  have dep: "dependents s' m = (if m = u then {} else dependents s m)" for m
    by (simp add: dependents_def blk)
  have "card {m. u \<in> dependents s m} = 0"
    using ok u ready by (simp add: block_graph_ok_def)
  then have "{m. u \<in> dependents s m} = {}"
    using finite_blockers [of u s] by simp
  then have nodep: "u \<notin> dependents s m" for m
    by blast
  have cnt: "map_of (blockCount s') n =
      (if n \<in> dependents s u then map_option (\<lambda>c. c - 1) (map_of (blockCount s) n)
       else map_of (blockCount s) n)" for n
    using ok pop by (rule pop_node_counts)
  have old: "map_of (blockCount s) n = Some (int (card {m. n \<in> dependents s m}))"
    if "n \<in> pending s" for n
    using ok that by (simp add: block_graph_ok_def)
  have "distinct (map fst (pendingNodes s'))"
    using ok by (simp add: 1(3) block_graph_ok_def distinct_delete)
  moreover have "distinct (map fst (blocking s'))"
    using ok by (simp add: 1(3) block_graph_ok_def distinct_delete)
  moreover have "fst ` set (blocking s') = pending s'"
    using ok by (simp add: 1(3) block_graph_ok_def keys_delete pending_def)
  moreover have "distinct (map fst row') \<and> fst ` set row' \<subseteq> pending s'
      \<and> (\<forall>n sockets. map_of row' n = Some sockets \<longrightarrow> True \<in> snd ` set sockets)"
    if "map_of (blocking s') m = Some row'" for m row'
  proof -
    have m: "map_of (blocking s) m = Some row'"
      using that by (simp add: blk split: if_splits)
    then have "u \<notin> fst ` set row'"
      using nodep [of m] by (simp add: dependents_def)
    with block_graph_ok_row [OF ok m] show ?thesis
      by (auto simp: pend)
  qed
  moreover have "map_of (blockCount s') n = Some (int (card {m. n \<in> dependents s' m}))"
    if "n \<in> pending s'" for n
  proof -
    have n: "n \<in> pending s"
      using that by (simp add: pend)
    have set: "{m. n \<in> dependents s' m} = {m. n \<in> dependents s m} - {u}"
      by (auto simp: dep)
    show ?thesis
    proof (cases "n \<in> dependents s u")
      case True
      then have "u \<in> {m. n \<in> dependents s m}"
        by simp
      then have "card {m. n \<in> dependents s m} = Suc (card ({m. n \<in> dependents s m} - {u}))"
        by (intro card.remove finite_blockers)
      then show ?thesis
        using True old [OF n] by (simp add: cnt set)
    next
      case False
      then have "{m. n \<in> dependents s m} - {u} = {m. n \<in> dependents s m}"
        by auto
      then show ?thesis
        using False old [OF n] by (simp add: cnt set)
    qed
  qed
  ultimately show ?thesis
    unfolding block_graph_ok_def by blast
qed

lemma block_graph_ok_loop:
  "add_node_loop ncm il sg ids links s = Inr (s', links') \<Longrightarrow> block_graph_ok s \<Longrightarrow>
     block_graph_ok s'"
proof (induction ncm il sg ids links s rule: add_node_loop.induct)
  case (1 ncm il sg links s)
  then show ?case by simp
next
  case (2 ncm il sg u ids links s)
  show ?case
  proof (cases "u \<in> fst ` set (pendingNodes s)")
    case True
    then have "add_node_loop ncm il sg ids links s = Inr (s', links')"
      using "2.prems"(1) by simp
    from "2.IH"(1) [OF True this "2.prems"(2)] show ?thesis .
  next
    case False
    from "2.prems"(1) False obtain nd ids1 links1 where
      nd: "get_node (dynprompt (visit_new s u)) u = Inr nd"
      and scan: "scan_inputs ncm (visit_new s u) il sg u (inputs nd) ids links = Inr (ids1, links1)"
      and rec: "add_node_loop ncm il sg ids1 links1 (visit_new s u) = Inr (s', links')"
      by (auto split: sum.splits)
    have "block_graph_ok (visit_new s u)"
      using "2.prems"(2) False by (intro block_graph_ok_visit_new) (simp_all add: pending_def)
    from "2.IH"(2) [OF False nd scan refl rec this] show ?thesis .
  qed
qed

lemma block_graph_ok_record_edges:
  "record_edges s links = Inr s' \<Longrightarrow> block_graph_ok s \<Longrightarrow>
     \<forall>l \<in> set links. fst l \<in> pending s \<and> snd (snd l) \<in> pending s \<Longrightarrow> block_graph_ok s'"
proof (induction links arbitrary: s)
  case Nil
  then show ?case by simp
next
  case (Cons l links)
  from Cons.prems(1) obtain s1 where edge: "record_edge s (fst l) (fst (snd l)) (snd (snd l)) = Inr s1"
    and rec: "record_edges s1 links = Inr s'"
    by (auto split: sum.splits)
  have ok1: "block_graph_ok s1"
    using Cons.prems(2,3) edge by (intro block_graph_ok_record_edge [OF _ _ _ edge]) simp_all
  have "pending s1 = pending s"
    using record_edge_pending [OF edge] by (simp add: pending_def)
  then have "\<forall>l \<in> set links. fst l \<in> pending s1 \<and> snd (snd l) \<in> pending s1"
    using Cons.prems(3) by simp
  from Cons.IH [OF rec ok1 this] show ?case .
qed

lemma block_graph_ok_add_node:
  assumes "add_node ncm s u il sg = Inr s'" and ok: "block_graph_ok s"
  shows "block_graph_ok s'"
proof -
  from assms(1) obtain s0 links where loop: "add_node_loop ncm il sg [u] [] s = Inr (s0, links)"
    and edges: "record_edges s0 links = Inr s'"
    by (auto simp: add_node_eq split: sum.splits)
  have ok0: "block_graph_ok s0"
    using loop ok by (rule block_graph_ok_loop)
  have "\<forall>l \<in> set links. fst l \<in> pending s0 \<and> snd (snd l) \<in> pending s0"
    using add_node_loop_links [OF loop] by auto
  from block_graph_ok_record_edges [OF edges ok0 this] show ?thesis .
qed

lemma block_graph_ok_add_strong_link:
  assumes "add_strong_link ncm s f sock t = Inr s'" and ok: "block_graph_ok s"
    and t: "t \<in> pending s"
  shows "block_graph_ok s'"
proof -
  from assms(1) obtain s0 where s0: "add_node ncm s f False None = Inr s0"
    and edge: "record_edge s0 f sock t = Inr s'"
    by (auto simp: add_strong_link_eq split: sum.splits)
  have "block_graph_ok s0"
    using s0 ok by (rule block_graph_ok_add_node)
  moreover have "f \<in> pending s0" "t \<in> pending s0"
    using add_node_pending [OF s0] t by auto
  ultimately show ?thesis
    using edge by (rule block_graph_ok_record_edge)
qed


lemma block_graph_ok_fresh:
  "pendingNodes s = [] \<Longrightarrow> blocking s = [] \<Longrightarrow> block_graph_ok s"
  by (simp add: block_graph_ok_def pending_def)

lemma reachable_ok: "reachable ncm s \<Longrightarrow> block_graph_ok s"
proof (induction rule: reachable.induct)
  case (fresh s)
  then show ?case by (simp add: block_graph_ok_fresh)
next
  case (add_node s u il sg s')
  then show ?case by (simp add: block_graph_ok_add_node)
next
  case (add_strong_link s t f sock s')
  then show ?case by (simp add: block_graph_ok_add_strong_link)
next
  case (pop_node s u s')
  then show ?case by (simp add: block_graph_ok_pop_node)
next
  case (other_fields s s')
  then show ?case
    by (simp add: block_graph_ok_def pending_def dependents_def)
qed

lemma blocks_dependents: "blocks s m n \<Longrightarrow> n \<in> dependents s m"
  by (auto simp: blocks_def dependents_def split: option.splits dest: map_of_SomeD
      intro: rev_image_eqI)

lemma dependents_blocks:
  assumes ok: "block_graph_ok s" and dep: "n \<in> dependents s m"
  shows "blocks s m n \<and> m \<in> pending s"
proof -
  from dep obtain row where row: "map_of (blocking s) m = Some row" and n: "n \<in> fst ` set row"
    by (auto simp: dependents_def split: option.splits)
  from n obtain sockets where sockets: "map_of row n = Some sockets"
    by (cases "map_of row n") (auto simp: map_of_eq_None_iff)
  have "True \<in> snd ` set sockets"
    using block_graph_ok_row(3) [OF ok row sockets] .
  then have "blocks s m n"
    by (simp add: blocks_def row sockets)
  moreover have "m \<in> pending s"
    using ok dependents_keys [OF dep] by (simp add: block_graph_ok_def)
  ultimately show ?thesis ..
qed

lemma ready_iff_unblocked:
  assumes ok: "block_graph_ok s" and n: "n \<in> pending s"
  shows "(map_of (blockCount s) n = Some 0) = (\<not> (\<exists>m \<in> pending s. blocks s m n))"
proof -
  have "map_of (blockCount s) n = Some (int (card {m. n \<in> dependents s m}))"
    using ok n by (simp add: block_graph_ok_def)
  then have "(map_of (blockCount s) n = Some 0) = ({m. n \<in> dependents s m} = {})"
    using finite_blockers [of n s] by simp
  also have "\<dots> = (\<not> (\<exists>m \<in> pending s. blocks s m n))"
  proof
    assume empty: "{m. n \<in> dependents s m} = {}"
    show "\<not> (\<exists>m \<in> pending s. blocks s m n)"
    proof
      assume "\<exists>m \<in> pending s. blocks s m n"
      then obtain m where "blocks s m n"
        by blast
      then have "n \<in> dependents s m"
        by (rule blocks_dependents)
      with empty show False
        by blast
    qed
  next
    assume none: "\<not> (\<exists>m \<in> pending s. blocks s m n)"
    show "{m. n \<in> dependents s m} = {}"
    proof (rule ccontr)
      assume "{m. n \<in> dependents s m} \<noteq> {}"
      then obtain m where "n \<in> dependents s m"
        by blast
      from dependents_blocks [OF ok this] none show False
        by blast
    qed
  qed
  finally show ?thesis .
qed

text \<open>
  C5, as amended. Along every sequence of calls that starts from a fresh scheduler, in
  which every call returns, \<open>add_strong_link\<close> is applied to a pending consumer and
  \<open>pop_node\<close> to a ready node, the invariant holds: a pending node has count zero iff no
  pending node blocks it through a true socket. In such a state \<open>pop_node\<close> decrements the
  count of each node recorded in the popped node's row by one, whatever the number of
  sockets, and leaves every other count alone.
\<close>

theorem block_graph_invariant:
  assumes "reachable ncm s"
  shows "(\<forall>n \<in> pending s.
            (map_of (blockCount s) n = Some 0) = (\<not> (\<exists>m \<in> pending s. blocks s m n)))
    \<and> (\<forall>u s' n. pop_node s u = Inr s' \<longrightarrow>
          map_of (blockCount s') n =
            (if n \<in> dependents s u then map_option (\<lambda>c. c - 1) (map_of (blockCount s) n)
             else map_of (blockCount s) n))"
proof -
  have ok: "block_graph_ok s"
    using assms by (rule reachable_ok)
  show ?thesis
    using ready_iff_unblocked [OF ok] pop_node_counts [OF ok] by blast
qed

theorem block_graph_invariant_witness:
  "reachable plain_classes chain_added
   \<and> (map_of (blockCount chain_added) ''B'' = Some 0)
       = (\<not> (\<exists>m \<in> pending chain_added. blocks chain_added m ''B''))
   \<and> blocks chain_added ''A'' ''B''
   \<and> pop_node chain_added ''A'' = Inr chain_released
   \<and> map_of (blockCount chain_added) ''B'' = Some 1
   \<and> map_of (blockCount chain_released) ''B'' = Some 0"
proof -
  have built: "add_node plain_classes (TopologicalSort_init chain_prompt) ''B'' False None
      = Inr chain_added"
    by code_simp
  have "reachable plain_classes (TopologicalSort_init chain_prompt)"
    by (rule reachable.fresh) (simp_all add: TopologicalSort_init_def)
  then have r: "reachable plain_classes chain_added"
    using built by (rule reachable.add_node)
  have b: "''B'' \<in> pending chain_added" "''B'' \<in> dependents chain_added ''A''"
    "map_of (blockCount chain_added) ''B'' = Some 1" "blocks chain_added ''A'' ''B''"
    "''A'' \<in> pending chain_added"
    by (simp_all add: chain_added_def pending_def dependents_def blocks_def)
  have pop: "pop_node chain_added ''A'' = Inr chain_released"
    by code_simp
  have "(map_of (blockCount chain_added) ''B'' = Some 0)
       = (\<not> (\<exists>m \<in> pending chain_added. blocks chain_added m ''B''))"
    using block_graph_invariant [OF r] b(1) by blast
  moreover have "map_of (blockCount chain_released) ''B'' = Some 0"
    using block_graph_invariant [OF r] pop b(2,3) by simp
  ultimately show ?thesis
    using r b pop by simp
qed

text \<open>
  C5 as stated fails for sequences that pop a node that is not ready: after
  \<open>add_node(B)\<close>, \<open>pop_node(B)\<close>, \<open>add_node(B)\<close> the row of the pending \<open>A\<close> still names
  \<open>B\<close>, so the edge is not counted again, and \<open>B\<close> is pending with count zero while the
  pending \<open>A\<close> blocks it.
\<close>

theorem block_graph_invariant_counterexample:
  "add_node plain_classes (TopologicalSort_init chain_prompt) ''B'' False None = Inr chain_added
   \<and> pop_node chain_added ''B'' = Inr chain_popped
   \<and> add_node plain_classes chain_popped ''B'' False None = Inr chain_readded
   \<and> ''B'' \<in> pending chain_readded
   \<and> map_of (blockCount chain_readded) ''B'' = Some 0
   \<and> ''A'' \<in> pending chain_readded
   \<and> blocks chain_readded ''A'' ''B''"
proof -
  have "add_node plain_classes (TopologicalSort_init chain_prompt) ''B'' False None = Inr chain_added"
    by code_simp
  moreover have "pop_node chain_added ''B'' = Inr chain_popped"
    by code_simp
  moreover have "add_node plain_classes chain_popped ''B'' False None = Inr chain_readded"
    by code_simp
  moreover have "''B'' \<in> pending chain_readded" "map_of (blockCount chain_readded) ''B'' = Some 0"
    "''A'' \<in> pending chain_readded" "blocks chain_readded ''A'' ''B''"
    by (simp_all add: chain_readded_def pending_def blocks_def)
  ultimately show ?thesis
    by simp
qed

subsection \<open>Cycle isolation and the cycle error\<close>

text \<open>
  C2 does not hold of the code. The function removes the nodes nobody blocks, so a node
  that only depends on a cycle is never removed: for \<open>A\<close> and \<open>B\<close> on a cycle and \<open>C\<close>
  fed by \<open>A\<close> it returns \<open>C\<close>, \<open>A\<close> and \<open>B\<close>, and \<open>C\<close> lies on no cycle. (The comment in
  the code announces a peeling in reverse topological order, which would remove \<open>C\<close>.)
  \<open>stage_node_execution\<close> then blames \<open>C\<close>.
\<close>

theorem cycle_isolation_keeps_tail:
  "add_node plain_classes (ExecutionList_init cycle_prompt {}) ''C'' False None = Inr cycle_with_tail
   \<and> get_ready_nodes cycle_with_tail = Inr []
   \<and> get_nodes_in_cycle cycle_with_tail = Inr [''C'', ''A'', ''B'']
   \<and> \<not> on_cycle cycle_with_tail ''C''
   \<and> stage_node_execution plain_classes cycle_with_tail
       = Some (Inr (DependencyCycleError ''C'', cycle_with_tail))"
proof -
  have "add_node plain_classes (ExecutionList_init cycle_prompt {}) ''C'' False None = Inr cycle_with_tail"
    by code_simp
  moreover have "get_ready_nodes cycle_with_tail = Inr []"
    by code_simp
  moreover have "get_nodes_in_cycle cycle_with_tail = Inr [''C'', ''A'', ''B'']"
    by code_simp
  moreover have "\<not> on_cycle cycle_with_tail ''C''"
  proof
    assume "on_cycle cycle_with_tail ''C''"
    then obtain z where "(''C'', z) \<in> blocks_step cycle_with_tail"
      unfolding on_cycle_def by (blast dest: tranclD)
    then show False
      by (simp add: blocks_step_def blocks_def cycle_with_tail_def)
  qed
  moreover have "stage_node_execution plain_classes cycle_with_tail
       = Some (Inr (DependencyCycleError ''C'', cycle_with_tail))"
    by code_simp
  ultimately show ?thesis
    by simp
qed

lemma blocked_by_row_marks:
  assumes "marked row \<subseteq> fst ` set bb"
    and "\<forall>n d. map_of bb n = Some d \<longrightarrow> (d \<noteq> [] \<longleftrightarrow> n \<in> S)"
  shows "\<exists>bb'. blocked_by_row f row bb = Inr bb' \<and> map fst bb' = map fst bb
           \<and> (\<forall>n d. map_of bb' n = Some d \<longrightarrow> (d \<noteq> [] \<longleftrightarrow> n \<in> S \<union> marked row))"
  using assms
proof (induction row arbitrary: bb S)
  case Nil
  then show ?case by (simp add: marked_def)
next
  case (Cons a row)
  obtain t sockets where a: "a = (t, sockets)"
    by (cases a)
  have sub: "marked row \<subseteq> fst ` set bb"
    using Cons.prems(1) by (auto simp: marked_def)
  show ?case
  proof (cases "True \<in> snd ` set sockets")
    case False
    then have m: "marked ((t, sockets) # row) = marked row"
      by (auto simp: marked_def)
    from Cons.IH [OF sub Cons.prems(2)] False show ?thesis
      by (simp add: a m)
  next
    case True
    then have m: "marked ((t, sockets) # row) = insert t (marked row)"
      by (auto simp: marked_def)
    then have "t \<in> fst ` set bb"
      using Cons.prems(1) by (simp add: a)
    then obtain d where d: "map_of bb t = Some d"
      by (cases "map_of bb t") (auto simp: map_of_eq_None_iff)
    define bb1 where "bb1 = AList.update t (AList.update f True d) bb"
    have keys1: "map fst bb1 = map fst bb"
      using \<open>t \<in> fst ` set bb\<close> by (simp add: bb1_def update_keys)
    then have sub1: "marked row \<subseteq> fst ` set bb1"
      using sub by (metis list.set_map)
    have inv1: "\<forall>n d. map_of bb1 n = Some d \<longrightarrow> (d \<noteq> [] \<longleftrightarrow> n \<in> insert t S)"
      using Cons.prems(2) by (auto simp: bb1_def update_conv')
    from Cons.IH [OF sub1 inv1] obtain bb' where
      "blocked_by_row f row bb1 = Inr bb'" "map fst bb' = map fst bb1"
      "\<forall>n d. map_of bb' n = Some d \<longrightarrow> (d \<noteq> [] \<longleftrightarrow> n \<in> insert t S \<union> marked row)"
      by blast
    then show ?thesis
      using True d by (simp add: a m bb1_def [symmetric] keys1)
  qed
qed

lemma blocked_by_rows_marks:
  assumes "\<forall>(f, row) \<in> set rows. marked row \<subseteq> fst ` set bb"
    and "\<forall>n d. map_of bb n = Some d \<longrightarrow> (d \<noteq> [] \<longleftrightarrow> n \<in> S)"
  shows "\<exists>bb'. blocked_by_rows rows bb = Inr bb' \<and> map fst bb' = map fst bb
           \<and> (\<forall>n d. map_of bb' n = Some d \<longrightarrow>
                 (d \<noteq> [] \<longleftrightarrow> n \<in> S \<union> (\<Union>(f, row) \<in> set rows. marked row)))"
  using assms
proof (induction rows arbitrary: bb S)
  case Nil
  then show ?case by simp
next
  case (Cons a rows)
  obtain f row where a: "a = (f, row)"
    by (cases a)
  have "marked row \<subseteq> fst ` set bb"
    using Cons.prems(1) by (simp add: a)
  from blocked_by_row_marks [OF this Cons.prems(2), of f] obtain bb1 where
    bb1: "blocked_by_row f row bb = Inr bb1" "map fst bb1 = map fst bb"
    "\<forall>n d. map_of bb1 n = Some d \<longrightarrow> (d \<noteq> [] \<longleftrightarrow> n \<in> S \<union> marked row)"
    by blast
  have keys: "fst ` set bb1 = fst ` set bb"
    using bb1(2) by (metis list.set_map)
  have "\<forall>(f, row) \<in> set rows. marked row \<subseteq> fst ` set bb1"
    using Cons.prems(1) by (simp add: keys)
  from Cons.IH [OF this bb1(3)] obtain bb' where
    "blocked_by_rows rows bb1 = Inr bb'" "map fst bb' = map fst bb1"
    "\<forall>n d. map_of bb' n = Some d \<longrightarrow>
       (d \<noteq> [] \<longleftrightarrow> n \<in> (S \<union> marked row) \<union> (\<Union>(f, row) \<in> set rows. marked row))"
    by blast
  then show ?case
    using bb1(1,2) by (simp add: a Un_assoc)
qed


lemma ready_of_Nil:
  "ready_of counts ns = Inr [] \<Longrightarrow> n \<in> set ns \<Longrightarrow> \<exists>c. map_of counts n = Some c \<and> c \<noteq> 0"
  by (induction ns) (auto split: option.splits sum.splits if_splits)

lemma marked_keys: "marked row \<subseteq> fst ` set row"
  by (auto simp: marked_def intro: rev_image_eqI)

lemma stuck_all_pending:
  assumes ok: "block_graph_ok s" and stuck: "get_ready_nodes s = Inr []"
  shows "get_nodes_in_cycle s = Inr (map fst (pendingNodes s))"
proof -
  define bb0 :: "('a \<times> ('a \<times> bool) list) list"
    where "bb0 = map (\<lambda>node_id. (node_id, [])) (map fst (pendingNodes s))"
  have keys0: "map fst bb0 = map fst (pendingNodes s)"
    by (simp add: bb0_def comp_def)
  then have dom0: "fst ` set bb0 = pending s"
    by (metis list.set_map pending_def)
  have dist: "distinct (map fst (blocking s))" "distinct (map fst (pendingNodes s))"
    using ok by (simp_all add: block_graph_ok_def)
  have rows: "\<forall>(f, row) \<in> set (blocking s). marked row \<subseteq> fst ` set bb0"
  proof clarify
    fix f row t
    assume "(f, row) \<in> set (blocking s)" and t: "t \<in> marked row"
    then have "map_of (blocking s) f = Some row"
      using dist(1) by simp
    from block_graph_ok_row(2) [OF ok this] t marked_keys [of row] show "t \<in> fst ` set bb0"
      by (auto simp: dom0)
  qed
  have empty: "\<forall>n d. map_of bb0 n = Some d \<longrightarrow> (d \<noteq> [] \<longleftrightarrow> n \<in> {})"
    by (auto simp: bb0_def dest!: map_of_SomeD)
  from blocked_by_rows_marks [OF rows empty] obtain bb where
    bb: "blocked_by_rows (blocking s) bb0 = Inr bb" "map fst bb = map fst bb0"
    "\<forall>n d. map_of bb n = Some d \<longrightarrow> (d \<noteq> [] \<longleftrightarrow> n \<in> (\<Union>(f, row) \<in> set (blocking s). marked row))"
    by auto
  have "d \<noteq> []" if nd: "(n, d) \<in> set bb" for n d
  proof -
    have "distinct (map fst bb)"
      using dist(2) by (simp add: bb(2) keys0)
    then have look: "map_of bb n = Some d"
      using nd by simp
    have "n \<in> set (map fst (pendingNodes s))"
      using nd bb(2) keys0 by (metis fst_conv image_eqI list.set_map)
    then have n: "n \<in> pending s"
      by (simp add: pending_def)
    from ready_of_Nil [OF stuck [unfolded get_ready_nodes_def] \<open>n \<in> set (map fst (pendingNodes s))\<close>]
    obtain c where c: "map_of (blockCount s) n = Some c" "c \<noteq> 0"
      by blast
    have "map_of (blockCount s) n = Some (int (card {m. n \<in> dependents s m}))"
      using ok n by (simp add: block_graph_ok_def)
    then have "card {m. n \<in> dependents s m} \<noteq> 0"
      using c by simp
    then have "{m. n \<in> dependents s m} \<noteq> {}"
      by (metis card.empty)
    then obtain m where "n \<in> dependents s m"
      by blast
    then obtain row where row: "map_of (blocking s) m = Some row" and key: "n \<in> fst ` set row"
      by (auto simp: dependents_def split: option.splits)
    from key obtain sockets where sockets: "map_of row n = Some sockets"
      by (cases "map_of row n") (auto simp: map_of_eq_None_iff)
    have "True \<in> snd ` set sockets"
      using block_graph_ok_row(3) [OF ok row sockets] .
    then have "n \<in> marked row"
      using map_of_SomeD [OF sockets] by (auto simp: marked_def)
    moreover have "(m, row) \<in> set (blocking s)"
      using row by (rule map_of_SomeD)
    ultimately have "n \<in> (\<Union>(f, row) \<in> set (blocking s). marked row)"
      by blast
    with bb(3) look show ?thesis
      by blast
  qed
  then have "to_remove_of bb = []"
    by (auto simp: to_remove_of_def filter_empty_conv)
  then have "peel bb = map fst bb"
    by (subst peel.simps) simp
  then have pl: "peel bb = map fst (pendingNodes s)"
    by (simp only: bb(2) keys0)
  have run: "blocked_by_rows (blocking s)
      (map (\<lambda>node_id. (node_id, [])) (map fst (pendingNodes s))) = Inr bb"
    using bb(1) by (simp only: bb0_def)
  show ?thesis
    unfolding get_nodes_in_cycle_def run by (simp only: sum.case pl)
qed

lemma blame_result:
  assumes "wf (display_step dp)"
  shows "\<exists>b. blame dp first cs = Some b
           \<and> ((\<exists>pre n post. cs = pre @ n # post
                  \<and> (\<forall>k \<in> set pre. get_display_node_id dp k = Some k)
                  \<and> get_display_node_id dp n = Some b \<and> b \<noteq> n)
               \<or> ((\<forall>k \<in> set cs. get_display_node_id dp k = Some k) \<and> b = first))"
proof (induction cs)
  case Nil
  then show ?case by simp
next
  case (Cons a cs)
  from get_display_node_id_returns [OF assms, of a] obtain r where
    r: "get_display_node_id dp a = Some r"
    by blast
  show ?case
  proof (cases "r = a")
    case False
    have "a # cs = [] @ a # cs \<and> (\<forall>k \<in> set []. get_display_node_id dp k = Some k)
        \<and> get_display_node_id dp a = Some r \<and> r \<noteq> a"
      using r False by simp
    then have "\<exists>pre n post. a # cs = pre @ n # post
        \<and> (\<forall>k \<in> set pre. get_display_node_id dp k = Some k)
        \<and> get_display_node_id dp n = Some r \<and> r \<noteq> n"
      by blast
    moreover have "blame dp first (a # cs) = Some r"
      using r False by simp
    ultimately show ?thesis
      by blast
  next
    case True
    from Cons.IH obtain b where b: "blame dp first cs = Some b"
      and alt: "(\<exists>pre n post. cs = pre @ n # post
                  \<and> (\<forall>k \<in> set pre. get_display_node_id dp k = Some k)
                  \<and> get_display_node_id dp n = Some b \<and> b \<noteq> n)
               \<or> ((\<forall>k \<in> set cs. get_display_node_id dp k = Some k) \<and> b = first)"
      by blast
    have bl: "blame dp first (a # cs) = Some b"
      using r True b by simp
    from alt show ?thesis
    proof
      assume "\<exists>pre n post. cs = pre @ n # post
                  \<and> (\<forall>k \<in> set pre. get_display_node_id dp k = Some k)
                  \<and> get_display_node_id dp n = Some b \<and> b \<noteq> n"
      then obtain pre n post where "cs = pre @ n # post"
        "\<forall>k \<in> set pre. get_display_node_id dp k = Some k"
        "get_display_node_id dp n = Some b" "b \<noteq> n"
        by blast
      then have "a # cs = (a # pre) @ n # post
          \<and> (\<forall>k \<in> set (a # pre). get_display_node_id dp k = Some k)
          \<and> get_display_node_id dp n = Some b \<and> b \<noteq> n"
        using r True by simp
      then show ?thesis
        using bl by blast
    next
      assume "(\<forall>k \<in> set cs. get_display_node_id dp k = Some k) \<and> b = first"
      then show ?thesis
        using bl r True by simp
    qed
  qed
qed

text \<open>
  C3, as amended. In a reachable state with the slot empty, a pending node, no ready node
  and acyclic display chains, \<open>stage_node_execution\<close> returns a \<open>DependencyCycleError\<close>
  and the state it was given, the slot still empty. Cycle isolation returns a non-empty
  list; the blamed node is the display id of the first node of that list whose display id
  differs from the node itself, and the first node of the list when there is none.
\<close>

theorem cycle_error_blames_display:
  assumes reach: "reachable ncm s" and slot: "staged_node_id s = None"
    and nonempty: "\<not> is_empty s" and stuck: "get_ready_nodes s = Inr []"
    and acyclic: "wf (display_step (dynprompt s))"
  shows "\<exists>first rest b.
           get_nodes_in_cycle s = Inr (first # rest)
           \<and> stage_node_execution ncm s = Some (Inr (DependencyCycleError b, s))
           \<and> ((\<exists>pre n post. first # rest = pre @ n # post
                  \<and> (\<forall>k \<in> set pre. get_display_node_id (dynprompt s) k = Some k)
                  \<and> get_display_node_id (dynprompt s) n = Some b \<and> b \<noteq> n)
               \<or> ((\<forall>k \<in> set (first # rest). get_display_node_id (dynprompt s) k = Some k)
                  \<and> b = first))"
proof -
  have ok: "block_graph_ok s"
    using reach by (rule reachable_ok)
  have cyc: "get_nodes_in_cycle s = Inr (map fst (pendingNodes s))"
    using ok stuck by (rule stuck_all_pending)
  obtain first rest where cs: "map fst (pendingNodes s) = first # rest"
    using nonempty by (cases "pendingNodes s") (auto simp: is_empty_def)
  from blame_result [OF acyclic, of first "first # rest"] obtain b where
    b: "blame (dynprompt s) first (first # rest) = Some b"
    and alt: "(\<exists>pre n post. first # rest = pre @ n # post
                  \<and> (\<forall>k \<in> set pre. get_display_node_id (dynprompt s) k = Some k)
                  \<and> get_display_node_id (dynprompt s) n = Some b \<and> b \<noteq> n)
               \<or> ((\<forall>k \<in> set (first # rest). get_display_node_id (dynprompt s) k = Some k)
                  \<and> b = first)"
    by blast
  have "stage_node_execution ncm s = Some (Inr (DependencyCycleError b, s))"
    using slot nonempty stuck b
    by (simp add: stage_node_execution_def cyc cs del: blame.simps)
  then show ?thesis
    using cyc cs alt by auto
qed


lemma ephemeral_cycle_built:
  "add_node plain_classes (ExecutionList_init ephemeral_cycle_prompt {}) ''E1'' False None
     = Inr ephemeral_cycle"
  by code_simp

lemma ephemeral_cycle_staged:
  "stage_node_execution plain_classes ephemeral_cycle
     = Some (Inr (DependencyCycleError ''U'', ephemeral_cycle))"
  by code_simp

lemma ephemeral_cycle_steps:
  "(''E1'', ''E2'') \<in> blocks_step ephemeral_cycle" "(''E2'', ''E1'') \<in> blocks_step ephemeral_cycle"
  "(''U'', z) \<notin> blocks_step ephemeral_cycle"
  by (simp_all add: blocks_step_def blocks_def pending_def ephemeral_cycle_def)

text \<open>
  C3 as stated fails: the blamed node is a display id, which need not be on the cycle.
  Here the cycle is \<open>E1\<close>, \<open>E2\<close> and the blamed node is \<open>U\<close>, which is not pending.
\<close>

theorem cycle_error_blames_display_counterexample:
  "get_ready_nodes ephemeral_cycle = Inr []
   \<and> get_nodes_in_cycle ephemeral_cycle = Inr [''E1'', ''E2'']
   \<and> on_cycle ephemeral_cycle ''E1'' \<and> on_cycle ephemeral_cycle ''E2''
   \<and> stage_node_execution plain_classes ephemeral_cycle
       = Some (Inr (DependencyCycleError ''U'', ephemeral_cycle))
   \<and> ''U'' \<notin> set [''E1'', ''E2''] \<and> \<not> on_cycle ephemeral_cycle ''U''"
proof -
  have "get_ready_nodes ephemeral_cycle = Inr []"
    by code_simp
  moreover have "get_nodes_in_cycle ephemeral_cycle = Inr [''E1'', ''E2'']"
    by code_simp
  moreover have "on_cycle ephemeral_cycle ''E1''" "on_cycle ephemeral_cycle ''E2''"
    unfolding on_cycle_def using ephemeral_cycle_steps(1,2) by (blast intro: trancl_trans)+
  moreover have "\<not> on_cycle ephemeral_cycle ''U''"
    unfolding on_cycle_def using ephemeral_cycle_steps(3) by (blast dest: tranclD)
  ultimately show ?thesis
    using ephemeral_cycle_staged by simp
qed

theorem cycle_error_blames_display_witness:
  "reachable plain_classes ephemeral_cycle \<and> staged_node_id ephemeral_cycle = None
   \<and> \<not> is_empty ephemeral_cycle \<and> get_ready_nodes ephemeral_cycle = Inr []
   \<and> wf (display_step (dynprompt ephemeral_cycle))
   \<and> (\<exists>first rest b.
           get_nodes_in_cycle ephemeral_cycle = Inr (first # rest)
           \<and> stage_node_execution plain_classes ephemeral_cycle
               = Some (Inr (DependencyCycleError b, ephemeral_cycle))
           \<and> ((\<exists>pre n post. first # rest = pre @ n # post
                  \<and> (\<forall>k \<in> set pre. get_display_node_id (dynprompt ephemeral_cycle) k = Some k)
                  \<and> get_display_node_id (dynprompt ephemeral_cycle) n = Some b \<and> b \<noteq> n)
               \<or> ((\<forall>k \<in> set (first # rest).
                      get_display_node_id (dynprompt ephemeral_cycle) k = Some k)
                  \<and> b = first)))"
proof -
  have "reachable plain_classes (ExecutionList_init ephemeral_cycle_prompt {})"
    by (rule reachable.fresh) (simp_all add: ExecutionList_init_def)
  then have reach: "reachable plain_classes ephemeral_cycle"
    using ephemeral_cycle_built by (rule reachable.add_node)
  have slot: "staged_node_id ephemeral_cycle = None" and nonempty: "\<not> is_empty ephemeral_cycle"
    by (simp_all add: ephemeral_cycle_def is_empty_def)
  have stuck: "get_ready_nodes ephemeral_cycle = Inr []"
    by code_simp
  have "display_step (dynprompt ephemeral_cycle) \<subseteq> measure (\<lambda>x. if x = ''U'' then 0 else 1)"
    by (auto simp: display_step_def ephemeral_cycle_def ephemeral_cycle_prompt_def
        add_ephemeral_node_def DynamicPrompt_init_def split: if_splits)
  then have acyclic: "wf (display_step (dynprompt ephemeral_cycle))"
    by (rule wf_subset [OF wf_measure])
  show ?thesis
    using cycle_error_blames_display [OF reach slot nonempty stuck acyclic]
      reach slot nonempty stuck acyclic
    by simp
qed

subsection \<open>Lazy inputs\<close>

lemma node_input_info_frame:
  "dynprompt s' = dynprompt s \<Longrightarrow> node_input_info ncm s' u name = node_input_info ncm s u name"
  by (simp add: node_input_info_def)

lemma scan_inputs_origin:
  "scan_inputs ncm s False sg u ins ids links = Inr (ids', links') \<Longrightarrow>
     \<exists>new. links' = links @ new
        \<and> (\<forall>l \<in> set new. \<exists>name info. (name, Link (fst l) (fst (snd l))) \<in> set ins
              \<and> snd (snd l) = u
              \<and> node_input_info ncm s u name = Inr info \<and> \<not> is_lazy_info info)"
proof (induction ins arbitrary: ids links)
  case Nil
  then show ?case by simp
next
  case (Cons a ins)
  obtain input_name v where a: "a = (input_name, v)"
    by (cases a)
  show ?case
  proof (cases v)
    case Constant
    then show ?thesis
      using Cons.prems Cons.IH [of ids links] by (fastforce simp: a)
  next
    case (Link f sock)
    consider (skip) "scan_inputs ncm s False sg u ins ids links = Inr (ids', links')"
      | (push) info where "node_input_info ncm s u input_name = Inr info" "\<not> is_lazy_info info"
          "scan_inputs ncm s False sg u ins (f # ids) (links @ [(f, sock, u)]) = Inr (ids', links')"
      using Cons.prems by (auto simp: a Link split: if_splits sum.splits)
    then show ?thesis
    proof cases
      case skip
      from Cons.IH [OF skip] show ?thesis
        by (fastforce simp: a)
    next
      case push
      from Cons.IH [OF push(3)] obtain new where new: "links' = (links @ [(f, sock, u)]) @ new"
        "\<forall>l \<in> set new. \<exists>name info. (name, Link (fst l) (fst (snd l))) \<in> set ins
              \<and> snd (snd l) = u
              \<and> node_input_info ncm s u name = Inr info \<and> \<not> is_lazy_info info"
        by blast
      have "\<forall>l \<in> set ((f, sock, u) # new).
          \<exists>name info. (name, Link (fst l) (fst (snd l))) \<in> set (a # ins) \<and> snd (snd l) = u
              \<and> node_input_info ncm s u name = Inr info \<and> \<not> is_lazy_info info"
        using new(2) push(1,2) by (fastforce simp: a Link)
      then show ?thesis
        using new(1) by (intro exI [of _ "(f, sock, u) # new"]) simp
    qed
  qed
qed


lemma dependents_visit_new:
  "dependents (visit_new s u) m = (if m = u then {} else dependents s m)"
  by (simp add: dependents_def visit_new_tables update_conv')

lemma dependents_record_edge:
  assumes edge: "record_edge s f sock t = Inr s'"
  shows "dependents s' m = (if m = f then insert t (dependents s f) else dependents s m)"
  using edge
proof (cases rule: record_edge_cases)
  case (first row c)
  then show ?thesis
    by (auto simp: dependents_def update_conv' dom_update)
next
  case (again row sockets)
  have "t \<in> fst ` set row"
    using again(2) by (auto dest: map_of_SomeD intro: rev_image_eqI)
  then show ?thesis
    using again(1,3) by (auto simp: dependents_def update_conv' dom_update)
qed

lemma dependents_record_edges:
  "record_edges s links = Inr s' \<Longrightarrow>
     dependents s' m = dependents s m \<union> {t. \<exists>sock. (m, sock, t) \<in> set links}"
proof (induction links arbitrary: s)
  case Nil
  then show ?case by simp
next
  case (Cons l links)
  obtain f sock t where l: "l = (f, sock, t)"
    by (cases l)
  from Cons.prems obtain s1 where edge: "record_edge s f sock t = Inr s1"
    and rec: "record_edges s1 links = Inr s'"
    by (auto simp: l split: sum.splits)
  show ?case
    using Cons.IH [OF rec] dependents_record_edge [OF edge, of m]
    by (auto simp: l)
qed

lemma add_node_loop_origin:
  "add_node_loop ncm il sg ids links s = Inr (s', links') \<Longrightarrow> il = False \<Longrightarrow>
     dependents s' m \<subseteq> dependents s m
     \<and> (\<exists>new. links' = links @ new
          \<and> (\<forall>l \<in> set new. \<exists>nd name info. get_node (dynprompt s) (snd (snd l)) = Inr nd
                \<and> (name, Link (fst l) (fst (snd l))) \<in> set (inputs nd)
                \<and> node_input_info ncm s (snd (snd l)) name = Inr info \<and> \<not> is_lazy_info info))"
proof (induction ncm il sg ids links s rule: add_node_loop.induct)
  case (1 ncm il sg links s)
  then show ?case by simp
next
  case (2 ncm il sg u ids links s)
  show ?case
  proof (cases "u \<in> fst ` set (pendingNodes s)")
    case True
    then have "add_node_loop ncm il sg ids links s = Inr (s', links')"
      using "2.prems"(1) by simp
    from "2.IH"(1) [OF True this "2.prems"(2)] show ?thesis .
  next
    case False
    from "2.prems"(1) False obtain nd ids1 links1 where
      nd: "get_node (dynprompt (visit_new s u)) u = Inr nd"
      and scan: "scan_inputs ncm (visit_new s u) il sg u (inputs nd) ids links = Inr (ids1, links1)"
      and rec: "add_node_loop ncm il sg ids1 links1 (visit_new s u) = Inr (s', links')"
      by (auto split: sum.splits)
    have frame: "node_input_info ncm (visit_new s u) k name = node_input_info ncm s k name"
      for k name
      by (rule node_input_info_frame) simp
    from scan_inputs_origin [OF scan [unfolded "2.prems"(2)]] obtain new1 where
      new1: "links1 = links @ new1"
      "\<forall>l \<in> set new1. \<exists>name info. (name, Link (fst l) (fst (snd l))) \<in> set (inputs nd)
          \<and> snd (snd l) = u
          \<and> node_input_info ncm s u name = Inr info \<and> \<not> is_lazy_info info"
      unfolding frame by blast
    from "2.IH"(2) [OF False nd scan refl rec "2.prems"(2)] obtain new2 where
      dep: "dependents s' m \<subseteq> dependents (visit_new s u) m"
      and new2: "links' = links1 @ new2"
      "\<forall>l \<in> set new2. \<exists>nd name info. get_node (dynprompt s) (snd (snd l)) = Inr nd
          \<and> (name, Link (fst l) (fst (snd l))) \<in> set (inputs nd)
          \<and> node_input_info ncm s (snd (snd l)) name = Inr info \<and> \<not> is_lazy_info info"
      unfolding frame by auto
    have "dependents s' m \<subseteq> dependents s m"
      using dep by (auto simp: dependents_visit_new split: if_splits)
    moreover have "links' = links @ (new1 @ new2)"
      by (simp add: new1(1) new2(1))
    moreover have "\<forall>l \<in> set (new1 @ new2).
        \<exists>nd name info. get_node (dynprompt s) (snd (snd l)) = Inr nd
          \<and> (name, Link (fst l) (fst (snd l))) \<in> set (inputs nd)
          \<and> node_input_info ncm s (snd (snd l)) name = Inr info \<and> \<not> is_lazy_info info"
    proof
      fix l
      assume "l \<in> set (new1 @ new2)"
      then consider "l \<in> set new1" | "l \<in> set new2"
        by auto
      then show "\<exists>nd name info. get_node (dynprompt s) (snd (snd l)) = Inr nd
          \<and> (name, Link (fst l) (fst (snd l))) \<in> set (inputs nd)
          \<and> node_input_info ncm s (snd (snd l)) name = Inr info \<and> \<not> is_lazy_info info"
      proof cases
        case 1
        with new1(2) nd show ?thesis
          by fastforce
      next
        case 2
        with new2(2) show ?thesis
          by blast
      qed
    qed
    ultimately show ?thesis
      by blast
  qed
qed

lemma lazy_no_edge:
  assumes node: "get_node (dynprompt s) c = Inr nd"
    and lazy: "\<forall>name sock'. (name, Link p sock') \<in> set (inputs nd) \<longrightarrow> lazy_input ncm s c name"
    and before: "c \<notin> dependents s p"
    and add: "add_node ncm s x False sg = Inr s'"
  shows "c \<notin> dependents s' p"
proof -
  from add obtain s0 links where loop: "add_node_loop ncm False sg [x] [] s = Inr (s0, links)"
    and edges: "record_edges s0 links = Inr s'"
    by (auto simp: add_node_eq split: sum.splits)
  from add_node_loop_origin [OF loop refl, of p] have dep0: "dependents s0 p \<subseteq> dependents s p"
    and origin: "\<forall>l \<in> set links. \<exists>nd name info. get_node (dynprompt s) (snd (snd l)) = Inr nd
          \<and> (name, Link (fst l) (fst (snd l))) \<in> set (inputs nd)
          \<and> node_input_info ncm s (snd (snd l)) name = Inr info \<and> \<not> is_lazy_info info"
    by auto
  have "(p, sock', c) \<notin> set links" for sock'
  proof
    assume "(p, sock', c) \<in> set links"
    with origin obtain nd' name info where "get_node (dynprompt s) c = Inr nd'"
      "(name, Link p sock') \<in> set (inputs nd')"
      "node_input_info ncm s c name = Inr info" "\<not> is_lazy_info info"
      by fastforce
    then show False
      using node lazy by (auto simp: lazy_input_def)
  qed
  then show ?thesis
    using dependents_record_edges [OF edges, of p] dep0 before by auto
qed

lemma scan_inputs_all_lazy:
  "\<forall>name v. (name, v) \<in> set ins \<and> is_link v \<longrightarrow> lazy_input ncm s u name \<Longrightarrow>
     scan_inputs ncm s False sg u ins ids links = Inr (ids, links)"
proof (induction ins)
  case Nil
  then show ?case by simp
next
  case (Cons a ins)
  obtain input_name v where a: "a = (input_name, v)"
    by (cases a)
  have "\<forall>name v. (name, v) \<in> set ins \<and> is_link v \<longrightarrow> lazy_input ncm s u name"
    using Cons.prems by auto
  then have rest: "scan_inputs ncm s False sg u ins ids links = Inr (ids, links)"
    by (rule Cons.IH)
  show ?case
  proof (cases v)
    case Constant
    then show ?thesis
      using rest by (simp add: a)
  next
    case (Link f sock)
    then have "(input_name, v) \<in> set (a # ins)" "is_link v"
      by (simp_all add: a is_link_def)
    then have "lazy_input ncm s u input_name"
      using Cons.prems by blast
    then show ?thesis
      using rest by (auto simp: a Link lazy_input_def split: option.splits)
  qed
qed

lemma lazy_consumer_alone:
  assumes node: "get_node (dynprompt s) c = Inr nd"
    and lazy: "\<forall>name v. (name, v) \<in> set (inputs nd) \<and> is_link v \<longrightarrow> lazy_input ncm s c name"
    and new: "c \<notin> pending s"
  shows "add_node ncm s c False sg = Inr (visit_new s c)"
proof -
  have "lazy_input ncm (visit_new s c) c name = lazy_input ncm s c name" for name
    by (simp add: lazy_input_def node_input_info_frame [of "visit_new s c" s])
  then have "scan_inputs ncm (visit_new s c) False sg c (inputs nd) [] [] = Inr ([], [])"
    using lazy by (intro scan_inputs_all_lazy) simp
  then have "add_node_loop ncm False sg [c] [] s = Inr (visit_new s c, [])"
    using node new by (simp add: pending_def)
  then show ?thesis
    by (simp add: add_node_eq del: add_node_loop.simps)
qed

lemma record_edge_blocks:
  assumes edge: "record_edge s f sock t = Inr s'"
  shows "blocks s' f t"
  using edge
proof (cases rule: record_edge_cases)
  case (first row c)
  then show ?thesis
    by (simp add: blocks_def update_conv')
next
  case (again row sockets)
  have "map_of (AList.update sock True sockets) sock = Some True"
    by (simp add: update_conv')
  then have "(sock, True) \<in> set (AList.update sock True sockets)"
    by (rule map_of_SomeD)
  then have "True \<in> snd ` set (AList.update sock True sockets)"
    by (rule rev_image_eqI) simp
  then show ?thesis
    using again by (simp add: blocks_def update_conv')
qed

lemma forced_link_blocks:
  assumes reach: "reachable ncm s" and c: "c \<in> pending s"
    and node: "get_node (dynprompt s) c = Inr nd"
    and input: "map_of (inputs nd) i = Some (Link p sock)"
    and forced: "make_input_strong_link ncm s c i = Inr s2"
  shows "p \<in> pending s2 \<and> c \<in> pending s2 \<and> blocks s2 p c
    \<and> (\<exists>k. map_of (blockCount s2) c = Some k \<and> 0 < k)"
proof -
  have link: "add_strong_link ncm s p sock c = Inr s2"
    using forced by (simp add: make_input_strong_link_def node input)
  then obtain s0 where s0: "add_node ncm s p False None = Inr s0"
    and edge: "record_edge s0 p sock c = Inr s2"
    by (auto simp: add_strong_link_eq split: sum.splits)
  have pend: "pending s2 = pending s0"
    using record_edge_pending [OF edge] by (simp add: pending_def)
  have p: "p \<in> pending s2" and c2: "c \<in> pending s2"
    using add_node_pending [OF s0] c by (auto simp: pend)
  have blk: "blocks s2 p c"
    using edge by (rule record_edge_blocks)
  have ok: "block_graph_ok s2"
    using reachable.add_strong_link [OF reach c link] by (rule reachable_ok)
  have cnt: "map_of (blockCount s2) c = Some (int (card {m. c \<in> dependents s2 m}))"
    using ok c2 by (simp add: block_graph_ok_def)
  have "map_of (blockCount s2) c \<noteq> Some 0"
    using ready_iff_unblocked [OF ok c2] p blk by blast
  then have "0 < int (card {m. c \<in> dependents s2 m})"
    using cnt by simp
  then show ?thesis
    using p c2 blk cnt by blast
qed


text \<open>
  C9. Let \<open>c\<close> be a node with an input \<open>i\<close> that links to \<open>p\<close>, every input of \<open>c\<close> that
  links to \<open>p\<close> being declared lazy. Then \<open>i\<close> is lazy, and
  \<^item> no \<open>add_node\<close> with \<open>include_lazy\<close> false records an edge from \<open>p\<close> to \<open>c\<close>: if
    \<open>blocking[p]\<close> has no entry for \<open>c\<close> before the call, it has none after it;
  \<^item> if all links of \<open>c\<close> are lazy, \<open>add_node(c)\<close> adds \<open>c\<close> alone, with count zero: \<open>c\<close>
    is ready and no producer was enqueued;
  \<^item> after \<open>make_input_strong_link(c, i)\<close> in a reachable state with \<open>c\<close> pending, \<open>p\<close>
    is pending, \<open>blocking[p][c]\<close> has a true socket and the count of \<open>c\<close> is positive.
\<close>

theorem lazy_edge_deferral:
  assumes node: "get_node (dynprompt s) c = Inr nd"
    and input: "map_of (inputs nd) i = Some (Link p sock)"
    and lazy: "\<forall>name sock'. (name, Link p sock') \<in> set (inputs nd) \<longrightarrow> lazy_input ncm s c name"
  shows "lazy_input ncm s c i
    \<and> (\<forall>x sg s'. c \<notin> dependents s p \<and> add_node ncm s x False sg = Inr s' \<longrightarrow>
          c \<notin> dependents s' p)
    \<and> ((\<forall>name v. (name, v) \<in> set (inputs nd) \<and> is_link v \<longrightarrow> lazy_input ncm s c name)
         \<and> c \<notin> pending s \<longrightarrow>
          add_node ncm s c False None = Inr (visit_new s c)
          \<and> pending (visit_new s c) = insert c (pending s)
          \<and> map_of (blockCount (visit_new s c)) c = Some 0)
    \<and> (\<forall>s2. reachable ncm s \<and> c \<in> pending s \<and> make_input_strong_link ncm s c i = Inr s2 \<longrightarrow>
          p \<in> pending s2 \<and> c \<in> pending s2 \<and> blocks s2 p c
          \<and> (\<exists>k. map_of (blockCount s2) c = Some k \<and> 0 < k))"
proof -
  have "(i, Link p sock) \<in> set (inputs nd)"
    using input by (rule map_of_SomeD)
  then have c1: "lazy_input ncm s c i"
    using lazy by blast
  have c2: "\<forall>x sg s'. c \<notin> dependents s p \<and> add_node ncm s x False sg = Inr s' \<longrightarrow>
      c \<notin> dependents s' p"
  proof (intro allI impI)
    fix x sg s'
    assume "c \<notin> dependents s p \<and> add_node ncm s x False sg = Inr s'"
    then have "c \<notin> dependents s p" "add_node ncm s x False sg = Inr s'"
      by simp_all
    with node lazy show "c \<notin> dependents s' p"
      by (rule lazy_no_edge)
  qed
  have c3: "(\<forall>name v. (name, v) \<in> set (inputs nd) \<and> is_link v \<longrightarrow> lazy_input ncm s c name)
         \<and> c \<notin> pending s \<longrightarrow>
          add_node ncm s c False None = Inr (visit_new s c)
          \<and> pending (visit_new s c) = insert c (pending s)
          \<and> map_of (blockCount (visit_new s c)) c = Some 0"
  proof
    assume "(\<forall>name v. (name, v) \<in> set (inputs nd) \<and> is_link v \<longrightarrow> lazy_input ncm s c name)
         \<and> c \<notin> pending s"
    then have all: "\<forall>name v. (name, v) \<in> set (inputs nd) \<and> is_link v \<longrightarrow> lazy_input ncm s c name"
      and new: "c \<notin> pending s"
      by simp_all
    from lazy_consumer_alone [OF node all new, of None]
    show "add_node ncm s c False None = Inr (visit_new s c)
          \<and> pending (visit_new s c) = insert c (pending s)
          \<and> map_of (blockCount (visit_new s c)) c = Some 0"
      by (simp add: visit_new_tables update_conv')
  qed
  have c4: "\<forall>s2. reachable ncm s \<and> c \<in> pending s \<and> make_input_strong_link ncm s c i = Inr s2 \<longrightarrow>
          p \<in> pending s2 \<and> c \<in> pending s2 \<and> blocks s2 p c
          \<and> (\<exists>k. map_of (blockCount s2) c = Some k \<and> 0 < k)"
  proof (intro allI impI)
    fix s2
    assume "reachable ncm s \<and> c \<in> pending s \<and> make_input_strong_link ncm s c i = Inr s2"
    then have "reachable ncm s" "c \<in> pending s" "make_input_strong_link ncm s c i = Inr s2"
      by simp_all
    from forced_link_blocks [OF this(1,2) node input this(3)]
    show "p \<in> pending s2 \<and> c \<in> pending s2 \<and> blocks s2 p c
          \<and> (\<exists>k. map_of (blockCount s2) c = Some k \<and> 0 < k)" .
  qed
  show ?thesis
    using c1 c2 c3 c4 by (intro conjI)
qed

lemma lazy_example_input:
  "node_input_info lazy_classes lazy_fresh ''S'' ''x'' = Inr (Some (''IMAGE'', ''required'', [(''lazy'', True)]))"
  "node_input_info lazy_classes lazy_pending ''S'' ''x'' = Inr (Some (''IMAGE'', ''required'', [(''lazy'', True)]))"
  by code_simp+

theorem lazy_edge_deferral_witness:
  "lazy_input lazy_classes lazy_fresh ''S'' ''x''
   \<and> add_node lazy_classes lazy_fresh ''S'' False None = Inr lazy_pending
   \<and> ''S'' \<in> pending lazy_pending \<and> ''P'' \<notin> pending lazy_pending
   \<and> map_of (blockCount lazy_pending) ''S'' = Some 0
   \<and> ''S'' \<notin> dependents lazy_pending ''P''
   \<and> make_input_strong_link lazy_classes lazy_pending ''S'' ''x'' = Inr lazy_forced
   \<and> ''P'' \<in> pending lazy_forced \<and> blocks lazy_forced ''P'' ''S''
   \<and> (\<exists>k. map_of (blockCount lazy_forced) ''S'' = Some k \<and> 0 < k)"
proof -
  define nd :: "string node" where "nd = \<lparr>class_type = ''Switch'', inputs = [(''x'', Link ''P'' 0)]\<rparr>"
  have node: "get_node (dynprompt lazy_fresh) ''S'' = Inr nd"
    "get_node (dynprompt lazy_pending) ''S'' = Inr nd"
    by (simp_all add: nd_def lazy_fresh_def lazy_pending_def TopologicalSort_init_def lazy_prompt_def
        DynamicPrompt_init_def get_node_def)
  have input: "map_of (inputs nd) ''x'' = Some (Link ''P'' 0)"
    by (simp add: nd_def)
  have lz: "lazy_input lazy_classes lazy_fresh ''S'' ''x''"
    "lazy_input lazy_classes lazy_pending ''S'' ''x''"
    by (simp_all add: lazy_input_def lazy_example_input is_lazy_info_def)
  have lazy1: "\<forall>name sock'. (name, Link ''P'' sock') \<in> set (inputs nd) \<longrightarrow>
      lazy_input lazy_classes lazy_fresh ''S'' name"
    and lazy2: "\<forall>name sock'. (name, Link ''P'' sock') \<in> set (inputs nd) \<longrightarrow>
      lazy_input lazy_classes lazy_pending ''S'' name"
    and all: "\<forall>name v. (name, v) \<in> set (inputs nd) \<and> is_link v \<longrightarrow>
      lazy_input lazy_classes lazy_fresh ''S'' name"
    using lz by (simp_all add: nd_def)
  have new: "''S'' \<notin> pending lazy_fresh" "''S'' \<notin> dependents lazy_fresh ''P''"
    by (simp_all add: lazy_fresh_def TopologicalSort_init_def pending_def dependents_def)
  have vis: "visit_new lazy_fresh ''S'' = lazy_pending"
    by (simp add: visit_new_def lazy_fresh_def lazy_pending_def TopologicalSort_init_def)
  have added: "add_node lazy_classes lazy_fresh ''S'' False None = Inr lazy_pending
      \<and> map_of (blockCount lazy_pending) ''S'' = Some 0"
    using lazy_edge_deferral [OF node(1) input lazy1] all new(1) by (simp add: vis)
  have "''S'' \<notin> dependents lazy_pending ''P''"
    using lazy_edge_deferral [OF node(1) input lazy1] new(2) added by blast
  then have first: "add_node lazy_classes lazy_fresh ''S'' False None = Inr lazy_pending
      \<and> map_of (blockCount lazy_pending) ''S'' = Some 0
      \<and> ''S'' \<notin> dependents lazy_pending ''P''"
    using added by simp
  have "reachable lazy_classes lazy_fresh"
    by (rule reachable.fresh) (simp_all add: lazy_fresh_def TopologicalSort_init_def)
  then have reach: "reachable lazy_classes lazy_pending"
    using first by (blast intro: reachable.add_node)
  have pend: "''S'' \<in> pending lazy_pending" "''P'' \<notin> pending lazy_pending"
    by (simp_all add: lazy_pending_def pending_def)
  have forced: "make_input_strong_link lazy_classes lazy_pending ''S'' ''x'' = Inr lazy_forced"
    by code_simp
  have "''P'' \<in> pending lazy_forced \<and> blocks lazy_forced ''P'' ''S''
      \<and> (\<exists>k. map_of (blockCount lazy_forced) ''S'' = Some k \<and> 0 < k)"
    using lazy_edge_deferral [OF node(2) input lazy2] reach pend(1) forced by blast
  then show ?thesis
    using lz(1) first pend forced by simp
qed

end
